theory Spec2Isabelle
  imports Main "HOL-Library.Word"
begin

unbundle bit_operations_syntax

section \<open>Machine words\<close>

type_synonym u8 = "8 word"
type_synonym u16 = "16 word"
type_synonym u32 = "32 word"
type_synonym u64 = "64 word"

section \<open>UART proxy: checksum\<close>

definition CHECKSUM_INIT :: u32 where
  "CHECKSUM_INIT = 0xDEADBEEF"

definition CHECKSUM_FINAL :: u32 where
  "CHECKSUM_FINAL = 0xADDEDBAD"

text \<open>
  \<open>checksum_block(start, length, init)\<close>: the list argument holds the \<open>length\<close> bytes
  found at \<open>start\<close>; each round multiplies the running sum by 31337 and adds the byte
  (promoted to a 32-bit value) xor-ed with \<open>0x5A\<close>, in 32-bit wrap-around arithmetic.
\<close>

primrec checksum_block :: "u8 list \<Rightarrow> u32 \<Rightarrow> u32" where
  "checksum_block [] acc = acc"
| "checksum_block (d # ds) acc = checksum_block ds (acc * 31337 + (ucast d XOR 0x5A))"

definition checksum_start :: "u8 list \<Rightarrow> u32" where
  "checksum_start bs = checksum_block bs CHECKSUM_INIT"

definition checksum_add :: "u8 list \<Rightarrow> u32 \<Rightarrow> u32" where
  "checksum_add bs acc = checksum_block bs acc"

definition checksum_finish :: "u32 \<Rightarrow> u32" where
  "checksum_finish acc = acc XOR CHECKSUM_FINAL"

definition checksum :: "u8 list \<Rightarrow> u32" where
  "checksum bs = checksum_finish (checksum_start bs)"

lemma checksum_block_append:
  "checksum_block (bs @ cs) acc = checksum_block cs (checksum_block bs acc)"
  by (induction bs arbitrary: acc) simp_all

text \<open>
  C9. The one-shot checksum of \<open>b\<close> is \<open>finish (add b (start []))\<close>; the checksum of
  \<open>b @ c\<close> is \<open>finish (add c (start b))\<close>; the running state starts at \<open>0xDEADBEEF\<close>,
  each further byte \<open>x\<close> turns state \<open>s\<close> into \<open>s * 31337 + (x XOR 0x5A)\<close> modulo
  \<open>2^32\<close>, and \<open>finish\<close> xors the state with \<open>0xADDEDBAD\<close>.
\<close>

theorem checksum_streaming_algebra:
  "checksum b = checksum_finish (checksum_add b (checksum_start []))
   \<and> checksum (b @ c) = checksum_finish (checksum_add c (checksum_start b))
   \<and> checksum_start [] = 0xDEADBEEF
   \<and> checksum_start (b @ [x]) = checksum_start b * 31337 + (ucast x XOR 0x5A)
   \<and> checksum_finish s = s XOR 0xADDEDBAD"
  by (simp add: checksum_def checksum_start_def checksum_add_def checksum_finish_def
      checksum_block_append CHECKSUM_INIT_def CHECKSUM_FINAL_def)

section \<open>Faults of the embedding\<close>

text \<open>
  Places where the C code has no defined result (a failed \<open>assert\<close>, an index outside
  the root table, a table pointer that names no live allocation, a shift by more than the
  operand width, a bus fault with the exception guard off) end the modelled function with
  \<open>Inl\<close> of the reason; \<open>Inr\<close> carries a normal return.
\<close>

datatype fault = Assert_failed | Out_of_bounds | Bad_pointer | Undefined_shift | Bus_fault

definition bind_res :: "fault + 'a \<Rightarrow> ('a \<Rightarrow> fault + 'b) \<Rightarrow> fault + 'b" where
  "bind_res m f = (case m of Inl e \<Rightarrow> Inl e | Inr x \<Rightarrow> f x)"

lemma bind_res_simps [simp]:
  "bind_res (Inl e) f = Inl e"
  "bind_res (Inr x) f = f x"
  by (simp_all add: bind_res_def)

lemma bind_res_eq_Inr:
  "bind_res m f = Inr y \<longleftrightarrow> (\<exists>x. m = Inr x \<and> f x = Inr y)"
  by (cases m) simp_all

section \<open>Bit-field helpers\<close>

text \<open>
  Modelled from the spec: the helper macros \<open>BIT\<close>, \<open>MASK\<close>, \<open>GENMASK\<close>,
  \<open>FIELD_PREP\<close>, \<open>FIELD_GET\<close>, \<open>ALIGN_UP\<close>, \<open>ALIGN_DOWN\<close> and \<open>min\<close> come from a
  header that is not part of the sources at hand. They are given their customary meaning on
  64-bit unsigned values, which reproduces the bit layout of section 3.2 of the
  specification: \<open>BIT n\<close> is \<open>1 << n\<close>, \<open>MASK n\<close> the low \<open>n\<close> bits,
  \<open>GENMASK msb lsb\<close> the bits \<open>lsb..msb\<close>, \<open>FIELD_PREP\<close> and \<open>FIELD_GET\<close> shift a value
  into and out of a field, \<open>ALIGN_UP x a\<close> is \<open>(x + (a - 1)) & ~(a - 1)\<close> and
  \<open>ALIGN_DOWN x a\<close> is \<open>x & ~(a - 1)\<close>.
\<close>

definition BIT :: "nat \<Rightarrow> u64" where
  "BIT n = push_bit n 1"

definition MASK :: "nat \<Rightarrow> u64" where
  "MASK n = BIT n - 1"

definition GENMASK :: "nat \<Rightarrow> nat \<Rightarrow> u64" where
  "GENMASK msb lsb = push_bit lsb (BIT ((msb + 1) - lsb) - 1)"

definition FIELD_LSB :: "u64 \<Rightarrow> u64" where
  "FIELD_LSB field = field AND NOT (field - 1)"

definition FIELD_PREP :: "u64 \<Rightarrow> u64 \<Rightarrow> u64" where
  "FIELD_PREP field val = val * FIELD_LSB field"

definition FIELD_GET :: "u64 \<Rightarrow> u64 \<Rightarrow> u64" where
  "FIELD_GET field val = (val AND field) div FIELD_LSB field"

definition ALIGN_UP :: "u64 \<Rightarrow> u64 \<Rightarrow> u64" where
  "ALIGN_UP x a = (x + (a - 1)) AND NOT (a - 1)"

definition ALIGN_DOWN :: "u64 \<Rightarrow> u64 \<Rightarrow> u64" where
  "ALIGN_DOWN x a = x AND NOT (a - 1)"

section \<open>Stage-2 page table: constants\<close>

definition PAGE_SIZE :: u64 where "PAGE_SIZE = 0x4000"

definition PTE_ACCESS :: u64 where "PTE_ACCESS = BIT 10"
definition PTE_SH_NS :: u64 where "PTE_SH_NS = push_bit 8 3"
definition PTE_S2AP_RW :: u64 where "PTE_S2AP_RW = push_bit 6 3"
definition PTE_MEMATTR_UNCHANGED :: u64 where "PTE_MEMATTR_UNCHANGED = push_bit 2 15"

definition PTE_ATTRIBUTES :: u64 where
  "PTE_ATTRIBUTES = PTE_ACCESS OR PTE_SH_NS OR PTE_S2AP_RW OR PTE_MEMATTR_UNCHANGED"

definition PTE_LOWER_ATTRIBUTES :: u64 where "PTE_LOWER_ATTRIBUTES = GENMASK 13 2"

definition PTE_VALID :: u64 where "PTE_VALID = BIT 0"
definition PTE_TYPE :: u64 where "PTE_TYPE = BIT 1"
definition PTE_BLOCK :: u64 where "PTE_BLOCK = 0"
definition PTE_TABLE :: u64 where "PTE_TABLE = 1"
definition PTE_PAGE :: u64 where "PTE_PAGE = 1"

definition VADDR_L4_INDEX_BITS :: nat where "VADDR_L4_INDEX_BITS = 12"
definition VADDR_L3_INDEX_BITS :: nat where "VADDR_L3_INDEX_BITS = 11"
definition VADDR_L2_INDEX_BITS :: nat where "VADDR_L2_INDEX_BITS = 11"

definition VADDR_L4_OFFSET_BITS :: nat where "VADDR_L4_OFFSET_BITS = 2"
definition VADDR_L3_OFFSET_BITS :: nat where "VADDR_L3_OFFSET_BITS = 14"
definition VADDR_L2_OFFSET_BITS :: nat where "VADDR_L2_OFFSET_BITS = 25"

definition VADDR_BITS :: nat where "VADDR_BITS = 36"

definition VADDR_L2_ALIGN_MASK :: u64 where
  "VADDR_L2_ALIGN_MASK = GENMASK (VADDR_L2_OFFSET_BITS - 1) VADDR_L3_OFFSET_BITS"
definition VADDR_L3_ALIGN_MASK :: u64 where
  "VADDR_L3_ALIGN_MASK = GENMASK (VADDR_L3_OFFSET_BITS - 1) VADDR_L4_OFFSET_BITS"
definition PTE_TARGET_MASK :: u64 where
  "PTE_TARGET_MASK = GENMASK 49 VADDR_L3_OFFSET_BITS"
definition PTE_TARGET_MASK_L4 :: u64 where
  "PTE_TARGET_MASK_L4 = GENMASK 49 VADDR_L4_OFFSET_BITS"

definition ENTRIES_PER_L2_TABLE :: nat where "ENTRIES_PER_L2_TABLE = 2 ^ VADDR_L2_INDEX_BITS"
definition ENTRIES_PER_L3_TABLE :: nat where "ENTRIES_PER_L3_TABLE = 2 ^ VADDR_L3_INDEX_BITS"
definition ENTRIES_PER_L4_TABLE :: nat where "ENTRIES_PER_L4_TABLE = 2 ^ VADDR_L4_INDEX_BITS"

definition SPTE_TRACE_READ :: u64 where "SPTE_TRACE_READ = BIT 63"
definition SPTE_TRACE_WRITE :: u64 where "SPTE_TRACE_WRITE = BIT 62"
definition SPTE_SYNC_TRACE :: u64 where "SPTE_SYNC_TRACE = BIT 61"
definition SPTE_TYPE :: u64 where "SPTE_TYPE = GENMASK 52 50"
definition SPTE_MAP :: u64 where "SPTE_MAP = 0"
definition SPTE_HOOK :: u64 where "SPTE_HOOK = 1"
definition SPTE_PROXY_HOOK_R :: u64 where "SPTE_PROXY_HOOK_R = 2"
definition SPTE_PROXY_HOOK_W :: u64 where "SPTE_PROXY_HOOK_W = 3"
definition SPTE_PROXY_HOOK_RW :: u64 where "SPTE_PROXY_HOOK_RW = 4"

definition IS_HW :: "u64 \<Rightarrow> bool" where
  "IS_HW pte \<longleftrightarrow> pte \<noteq> 0 \<and> pte AND PTE_VALID \<noteq> 0"

definition IS_SW :: "u64 \<Rightarrow> bool" where
  "IS_SW pte \<longleftrightarrow> pte \<noteq> 0 \<and> \<not> (pte AND PTE_VALID \<noteq> 0)"

definition L2_IS_TABLE :: "u64 \<Rightarrow> bool" where
  "L2_IS_TABLE pte \<longleftrightarrow> pte \<noteq> 0 \<and> FIELD_GET PTE_TYPE pte = PTE_TABLE"

definition L2_IS_NOT_TABLE :: "u64 \<Rightarrow> bool" where
  "L2_IS_NOT_TABLE pte \<longleftrightarrow> pte \<noteq> 0 \<and> \<not> L2_IS_TABLE pte"

definition L2_IS_HW_BLOCK :: "u64 \<Rightarrow> bool" where
  "L2_IS_HW_BLOCK pte \<longleftrightarrow> IS_HW pte \<and> FIELD_GET PTE_TYPE pte = PTE_BLOCK"

definition L2_IS_SW_BLOCK :: "u64 \<Rightarrow> bool" where
  "L2_IS_SW_BLOCK pte \<longleftrightarrow>
     IS_SW pte \<and> FIELD_GET PTE_TYPE pte = PTE_BLOCK \<and> FIELD_GET SPTE_TYPE pte = SPTE_MAP"

definition L3_IS_TABLE :: "u64 \<Rightarrow> bool" where
  "L3_IS_TABLE pte \<longleftrightarrow> IS_SW pte \<and> FIELD_GET PTE_TYPE pte = PTE_TABLE"

definition L3_IS_NOT_TABLE :: "u64 \<Rightarrow> bool" where
  "L3_IS_NOT_TABLE pte \<longleftrightarrow> pte \<noteq> 0 \<and> \<not> L3_IS_TABLE pte"

definition L3_IS_HW_BLOCK :: "u64 \<Rightarrow> bool" where
  "L3_IS_HW_BLOCK pte \<longleftrightarrow> IS_HW pte \<and> FIELD_GET PTE_TYPE pte = PTE_PAGE"

definition L3_IS_SW_BLOCK :: "u64 \<Rightarrow> bool" where
  "L3_IS_SW_BLOCK pte \<longleftrightarrow>
     IS_SW pte \<and> FIELD_GET PTE_TYPE pte = PTE_BLOCK \<and> FIELD_GET SPTE_TYPE pte = SPTE_MAP"

section \<open>Stage-2 page table: state\<close>

text \<open>
  A table is an array of 64-bit descriptors, read and written by index. The root
  \<open>hv_L2\<close> is a static array of 2048 entries; L3 and L4 tables live on the heap and are
  named by their address, which is what a table descriptor stores in its target bits.

  Modelled from the spec: the allocator (\<open>memalign\<close>, \<open>free\<close>) is an external
  capability (section 6.1). It is modelled as a bump allocator: \<open>brk\<close> is the next free
  address, \<open>memalign\<close> rounds it up to the alignment and hands it out, \<open>free\<close> drops the
  allocation from the heap. Dereferencing an address with no live allocation is the fault
  \<open>Bad_pointer\<close>.
\<close>

type_synonym table = "nat \<Rightarrow> u64"

record pt_state =
  hv_L2 :: table
  heap :: "u64 \<rightharpoonup> table"
  brk :: u64

definition memalign :: "u64 \<Rightarrow> u64 \<Rightarrow> pt_state \<Rightarrow> u64 \<times> pt_state" where
  "memalign alignment sz s =
     (let p = (brk s + (alignment - 1)) AND NOT (alignment - 1)
      in (p, s\<lparr>brk := p + sz\<rparr>))"

definition free :: "u64 \<Rightarrow> pt_state \<Rightarrow> pt_state" where
  "free p s = s\<lparr>heap := (heap s)(p := None)\<rparr>"

definition load :: "u64 \<Rightarrow> nat \<Rightarrow> pt_state \<Rightarrow> fault + u64" where
  "load p idx s = (case heap s p of None \<Rightarrow> Inl Bad_pointer | Some t \<Rightarrow> Inr (t idx))"

definition store :: "u64 \<Rightarrow> nat \<Rightarrow> u64 \<Rightarrow> pt_state \<Rightarrow> fault + pt_state" where
  "store p idx v s =
     (case heap s p of
        None \<Rightarrow> Inl Bad_pointer
      | Some t \<Rightarrow> Inr (s\<lparr>heap := (heap s)(p \<mapsto> t(idx := v))\<rparr>))"

text \<open>
  \<open>for (idx = 0; idx < n; idx++, d += incr) t[idx] = d\<close>, started at index \<open>idx\<close> with
  \<open>k\<close> rounds to go.
\<close>

primrec fill_from :: "nat \<Rightarrow> nat \<Rightarrow> u64 \<Rightarrow> u64 \<Rightarrow> table \<Rightarrow> table" where
  "fill_from 0 idx d incr t = t"
| "fill_from (Suc k) idx d incr t = fill_from k (idx + 1) (d + incr) incr (t(idx := d))"

definition hv_pt_init :: "pt_state \<Rightarrow> pt_state" where
  "hv_pt_init s = s\<lparr>hv_L2 := (\<lambda>_. 0)\<rparr>"

section \<open>Stage-2 page table: mapping\<close>

primrec free_l3_loop :: "nat \<Rightarrow> nat \<Rightarrow> table \<Rightarrow> pt_state \<Rightarrow> pt_state" where
  "free_l3_loop 0 idx l3 s = s"
| "free_l3_loop (Suc k) idx l3 s =
     free_l3_loop k (idx + 1) l3
       (if IS_SW (l3 idx) \<and> FIELD_GET PTE_TYPE (l3 idx) = PTE_TABLE
        then free (l3 idx AND PTE_TARGET_MASK) s else s)"

definition hv_pt_free_l3 :: "u64 \<Rightarrow> pt_state \<Rightarrow> fault + pt_state" where
  "hv_pt_free_l3 l3 s =
     (if l3 = 0 then Inr s
      else case heap s l3 of
        None \<Rightarrow> Inl Bad_pointer
      | Some t \<Rightarrow> Inr (free l3 (free_l3_loop ENTRIES_PER_L3_TABLE 0 t s)))"

text \<open>
  The loops of \<open>hv_pt_map_l2\<close>, \<open>hv_pt_map_l3\<close> and \<open>hv_pt_map_l4\<close> count \<open>size\<close> down by
  one granule per round until it is zero. The assertions before each loop make \<open>size\<close> a
  multiple of the granule, so the loop runs \<open>size >> granule_bits\<close> rounds; the model
  recurses on that number of rounds, and gives the body of each loop a name.
\<close>

text \<open>One round of the loop of \<open>hv_pt_map_l2\<close>, and the loop.\<close>

definition map_l2_step :: "u64 \<Rightarrow> u64 \<Rightarrow> pt_state \<Rightarrow> fault + pt_state" where
  "map_l2_step from to s =
     (let idx = unat (drop_bit VADDR_L2_OFFSET_BITS from) in
      if idx \<ge> ENTRIES_PER_L2_TABLE then Inl Out_of_bounds
      else bind_res
        (if L2_IS_TABLE (hv_L2 s idx)
         then hv_pt_free_l3 (hv_L2 s idx AND PTE_TARGET_MASK) s else Inr s)
        (\<lambda>s1. Inr (s1\<lparr>hv_L2 := (hv_L2 s1)(idx := to)\<rparr>)))"

primrec map_l2_loop :: "nat \<Rightarrow> u64 \<Rightarrow> u64 \<Rightarrow> u64 \<Rightarrow> pt_state \<Rightarrow> fault + pt_state" where
  "map_l2_loop 0 from to incr s = Inr s"
| "map_l2_loop (Suc n) from to incr s =
     bind_res (map_l2_step from to s) (\<lambda>s1.
       map_l2_loop n (from + BIT VADDR_L2_OFFSET_BITS)
         (to + incr * BIT VADDR_L2_OFFSET_BITS) incr s1)"

definition hv_pt_map_l2 :: "u64 \<Rightarrow> u64 \<Rightarrow> u64 \<Rightarrow> u64 \<Rightarrow> pt_state \<Rightarrow> fault + pt_state" where
  "hv_pt_map_l2 from to sz incr s =
     (if from AND MASK VADDR_L2_OFFSET_BITS \<noteq> 0 then Inl Assert_failed
      else if \<not> (IS_SW to \<or> to AND PTE_TARGET_MASK AND MASK VADDR_L2_OFFSET_BITS = 0)
        then Inl Assert_failed
      else if sz AND MASK VADDR_L2_OFFSET_BITS \<noteq> 0 then Inl Assert_failed
      else map_l2_loop (unat (drop_bit VADDR_L2_OFFSET_BITS sz)) from
             (to OR FIELD_PREP PTE_TYPE PTE_BLOCK) incr s)"

definition hv_pt_get_l3 :: "u64 \<Rightarrow> pt_state \<Rightarrow> fault + (u64 \<times> pt_state)" where
  "hv_pt_get_l3 from s =
     (let l2idx = unat (drop_bit VADDR_L2_OFFSET_BITS from) in
      if l2idx \<ge> ENTRIES_PER_L2_TABLE then Inl Out_of_bounds
      else let l2d = hv_L2 s l2idx in
        if L2_IS_TABLE l2d then Inr (l2d AND PTE_TARGET_MASK, s)
        else
          let (l3, s1) = memalign PAGE_SIZE (of_nat ENTRIES_PER_L3_TABLE * 8) s;
              t = (if l2d \<noteq> 0 then
                     let l3d = (if IS_HW l2d
                                then (l2d AND NOT PTE_TYPE) OR FIELD_PREP PTE_TYPE PTE_PAGE
                                else l2d);
                         incr = (if IS_HW l2d then BIT VADDR_L3_OFFSET_BITS
                                 else if IS_SW l2d \<and> FIELD_GET SPTE_TYPE l3d = SPTE_MAP
                                   then BIT VADDR_L3_OFFSET_BITS
                                 else 0)
                     in fill_from ENTRIES_PER_L3_TABLE 0 l3d incr (\<lambda>_. 0)
                   else (\<lambda>_. 0));
              l2d' = l3 OR FIELD_PREP PTE_TYPE PTE_TABLE OR PTE_VALID
          in Inr (l3, s1\<lparr>heap := (heap s1)(l3 \<mapsto> t), hv_L2 := (hv_L2 s1)(l2idx := l2d')\<rparr>))"

text \<open>One round of the loop of \<open>hv_pt_map_l3\<close>, and the loop.\<close>

definition map_l3_step :: "u64 \<Rightarrow> u64 \<Rightarrow> pt_state \<Rightarrow> fault + pt_state" where
  "map_l3_step from to s =
     (let idx = unat (drop_bit VADDR_L3_OFFSET_BITS from AND MASK VADDR_L3_INDEX_BITS) in
      bind_res (hv_pt_get_l3 from s) (\<lambda>(l3, s1).
      bind_res (load l3 idx s1) (\<lambda>old.
      store l3 idx to
        (if L3_IS_TABLE old then free (old AND PTE_TARGET_MASK) s1 else s1))))"

primrec map_l3_loop :: "nat \<Rightarrow> u64 \<Rightarrow> u64 \<Rightarrow> u64 \<Rightarrow> pt_state \<Rightarrow> fault + pt_state" where
  "map_l3_loop 0 from to incr s = Inr s"
| "map_l3_loop (Suc n) from to incr s =
     bind_res (map_l3_step from to s) (\<lambda>s1.
       map_l3_loop n (from + BIT VADDR_L3_OFFSET_BITS)
         (to + incr * BIT VADDR_L3_OFFSET_BITS) incr s1)"

definition hv_pt_map_l3 :: "u64 \<Rightarrow> u64 \<Rightarrow> u64 \<Rightarrow> u64 \<Rightarrow> pt_state \<Rightarrow> fault + pt_state" where
  "hv_pt_map_l3 from to sz incr s =
     (if from AND MASK VADDR_L3_OFFSET_BITS \<noteq> 0 then Inl Assert_failed
      else if \<not> (IS_SW to \<or> to AND PTE_TARGET_MASK AND MASK VADDR_L3_OFFSET_BITS = 0)
        then Inl Assert_failed
      else if sz AND MASK VADDR_L3_OFFSET_BITS \<noteq> 0 then Inl Assert_failed
      else map_l3_loop (unat (drop_bit VADDR_L3_OFFSET_BITS sz)) from
             (if IS_HW to then to OR FIELD_PREP PTE_TYPE PTE_PAGE
              else to OR FIELD_PREP PTE_TYPE PTE_BLOCK) incr s)"

definition hv_pt_get_l4 :: "u64 \<Rightarrow> pt_state \<Rightarrow> fault + (u64 \<times> pt_state)" where
  "hv_pt_get_l4 from s =
     bind_res (hv_pt_get_l3 from s) (\<lambda>(l3, s1).
     let l3idx = unat (drop_bit VADDR_L3_OFFSET_BITS from AND MASK VADDR_L3_INDEX_BITS) in
     bind_res (load l3 l3idx s1) (\<lambda>l3d.
     if L3_IS_TABLE l3d then Inr (l3d AND PTE_TARGET_MASK, s1)
     else if IS_HW l3d \<and> FIELD_GET PTE_TYPE l3d \<noteq> PTE_PAGE then Inl Assert_failed
     else
       let l3d1 = (if IS_HW l3d
                   then (l3d AND PTE_TARGET_MASK) OR
                        (FIELD_PREP PTE_TYPE PTE_BLOCK OR FIELD_PREP SPTE_TYPE SPTE_MAP)
                   else l3d);
           (l4, s2) = memalign PAGE_SIZE (of_nat ENTRIES_PER_L4_TABLE * 8) s1;
           t = (if l3d1 \<noteq> 0 then
                  let l4d = (l3d1 AND NOT PTE_TYPE) OR FIELD_PREP PTE_TYPE PTE_PAGE;
                      incr = (if FIELD_GET SPTE_TYPE l4d = SPTE_MAP
                              then BIT VADDR_L4_OFFSET_BITS else 0)
                  in fill_from ENTRIES_PER_L4_TABLE 0 l4d incr (\<lambda>_. 0)
                else (\<lambda>_. 0));
           l3d2 = l4 OR FIELD_PREP PTE_TYPE PTE_TABLE
       in bind_res (store l3 l3idx l3d2 (s2\<lparr>heap := (heap s2)(l4 \<mapsto> t)\<rparr>)) (\<lambda>s3.
          Inr (l4, s3))))"

text \<open>One round of the loop of \<open>hv_pt_map_l4\<close>, and the loop.\<close>

definition map_l4_step :: "u64 \<Rightarrow> u64 \<Rightarrow> pt_state \<Rightarrow> fault + pt_state" where
  "map_l4_step from to s =
     (let idx = unat (drop_bit VADDR_L4_OFFSET_BITS from AND MASK VADDR_L4_INDEX_BITS) in
      bind_res (hv_pt_get_l4 from s) (\<lambda>(l4, s1). store l4 idx to s1))"

primrec map_l4_loop :: "nat \<Rightarrow> u64 \<Rightarrow> u64 \<Rightarrow> u64 \<Rightarrow> pt_state \<Rightarrow> fault + pt_state" where
  "map_l4_loop 0 from to incr s = Inr s"
| "map_l4_loop (Suc n) from to incr s =
     bind_res (map_l4_step from to s) (\<lambda>s1.
       map_l4_loop n (from + BIT VADDR_L4_OFFSET_BITS)
         (to + incr * BIT VADDR_L4_OFFSET_BITS) incr s1)"

definition hv_pt_map_l4 :: "u64 \<Rightarrow> u64 \<Rightarrow> u64 \<Rightarrow> u64 \<Rightarrow> pt_state \<Rightarrow> fault + pt_state" where
  "hv_pt_map_l4 from to sz incr s =
     (if from AND MASK VADDR_L4_OFFSET_BITS \<noteq> 0 then Inl Assert_failed
      else if sz AND MASK VADDR_L4_OFFSET_BITS \<noteq> 0 then Inl Assert_failed
      else if IS_HW to then Inl Assert_failed
      else map_l4_loop (unat (drop_bit VADDR_L4_OFFSET_BITS sz)) from
             (if IS_SW to then to OR FIELD_PREP PTE_TYPE PTE_PAGE else to) incr s)"

text \<open>
  One segment of \<open>hv_map\<close>: map \<open>chunk\<close> bytes with the level's function, then advance
  \<open>from\<close>, \<open>to\<close> and \<open>size\<close> as the code does after each call.
\<close>

definition map_chunk ::
  "(u64 \<Rightarrow> u64 \<Rightarrow> u64 \<Rightarrow> u64 \<Rightarrow> pt_state \<Rightarrow> fault + pt_state) \<Rightarrow>
   u64 \<Rightarrow> u64 \<Rightarrow> u64 \<Rightarrow> u64 \<Rightarrow> u64 \<Rightarrow> pt_state \<Rightarrow> fault + (u64 \<times> u64 \<times> u64 \<times> pt_state)" where
  "map_chunk f chunk incr from to sz s =
     bind_res (f from to chunk incr s)
       (\<lambda>s'. Inr (from + chunk, to + incr * chunk, sz - chunk, s'))"

definition hv_map :: "u64 \<Rightarrow> u64 \<Rightarrow> u64 \<Rightarrow> u64 \<Rightarrow> pt_state \<Rightarrow> fault + (int \<times> pt_state)" where
  "hv_map from to sz incr s =
     (let hw = IS_HW to in
      if from AND MASK VADDR_L4_OFFSET_BITS \<noteq> 0 \<or> sz AND MASK VADDR_L4_OFFSET_BITS \<noteq> 0
        then Inr (- 1, s)
      else if hw \<and> (from AND MASK VADDR_L3_OFFSET_BITS \<noteq> 0 \<or>
                     sz AND MASK VADDR_L3_OFFSET_BITS \<noteq> 0)
        then Inr (- 1, s)
      else
        bind_res
          (let chunk = min sz (ALIGN_UP from (MASK VADDR_L3_OFFSET_BITS) - from) in
           if chunk \<noteq> 0
           then (if hw then Inl Assert_failed
                 else map_chunk hv_pt_map_l4 chunk incr from to sz s)
           else Inr (from, to, sz, s))
        (\<lambda>(from, to, sz, s).
        bind_res
          (let chunk = ALIGN_DOWN (min sz (ALIGN_UP from (MASK VADDR_L2_OFFSET_BITS) - from))
                         (MASK VADDR_L3_OFFSET_BITS) in
           if chunk \<noteq> 0 then map_chunk hv_pt_map_l3 chunk incr from to sz s
           else Inr (from, to, sz, s))
        (\<lambda>(from, to, sz, s).
        bind_res
          (let chunk = ALIGN_DOWN sz (MASK VADDR_L2_OFFSET_BITS) in
           if chunk \<noteq> 0 \<and> (\<not> hw \<or> to AND VADDR_L2_ALIGN_MASK = 0)
           then map_chunk hv_pt_map_l2 chunk incr from to sz s
           else Inr (from, to, sz, s))
        (\<lambda>(from, to, sz, s).
        bind_res
          (let chunk = ALIGN_DOWN sz (MASK VADDR_L3_OFFSET_BITS) in
           if chunk \<noteq> 0 then map_chunk hv_pt_map_l3 chunk incr from to sz s
           else Inr (from, to, sz, s))
        (\<lambda>(from, to, sz, s).
           if sz \<noteq> 0
           then (if hw then Inl Assert_failed
                 else bind_res (hv_pt_map_l4 from to sz incr s) (\<lambda>s'. Inr (0, s')))
           else Inr (0, s))))))"

definition hv_unmap :: "u64 \<Rightarrow> u64 \<Rightarrow> pt_state \<Rightarrow> fault + (int \<times> pt_state)" where
  "hv_unmap from sz s = hv_map from 0 sz 0 s"

definition hv_map_hw :: "u64 \<Rightarrow> u64 \<Rightarrow> u64 \<Rightarrow> pt_state \<Rightarrow> fault + (int \<times> pt_state)" where
  "hv_map_hw from to sz s = hv_map from (to OR PTE_ATTRIBUTES OR PTE_VALID) sz 1 s"

definition hv_map_sw :: "u64 \<Rightarrow> u64 \<Rightarrow> u64 \<Rightarrow> pt_state \<Rightarrow> fault + (int \<times> pt_state)" where
  "hv_map_sw from to sz s = hv_map from (to OR FIELD_PREP SPTE_TYPE SPTE_MAP) sz 1 s"

definition hv_map_hook :: "u64 \<Rightarrow> u64 \<Rightarrow> u64 \<Rightarrow> pt_state \<Rightarrow> fault + (int \<times> pt_state)" where
  "hv_map_hook from hook sz s = hv_map from (hook OR FIELD_PREP SPTE_TYPE SPTE_HOOK) sz 0 s"

definition hv_map_proxy_hook :: "u64 \<Rightarrow> u64 \<Rightarrow> u64 \<Rightarrow> pt_state \<Rightarrow> fault + (int \<times> pt_state)" where
  "hv_map_proxy_hook from ident sz s =
     hv_map from (FIELD_PREP PTE_TARGET_MASK_L4 ident OR FIELD_PREP SPTE_TYPE SPTE_HOOK) sz 0 s"

section \<open>Stage-2 page table: walk\<close>

definition hv_pt_walk :: "u64 \<Rightarrow> pt_state \<Rightarrow> fault + u64" where
  "hv_pt_walk addr s =
     (let idx = unat (drop_bit VADDR_L2_OFFSET_BITS addr) in
      if idx \<ge> ENTRIES_PER_L2_TABLE then Inl Out_of_bounds
      else let l2d = hv_L2 s idx in
        if \<not> L2_IS_TABLE l2d then
          Inr (if L2_IS_SW_BLOCK l2d \<or> L2_IS_HW_BLOCK l2d
               then l2d OR (addr AND (VADDR_L2_ALIGN_MASK OR VADDR_L3_ALIGN_MASK))
               else l2d)
        else
          let idx3 = unat (drop_bit VADDR_L3_OFFSET_BITS addr AND MASK VADDR_L3_INDEX_BITS) in
          bind_res (load (l2d AND PTE_TARGET_MASK) idx3 s) (\<lambda>l3d.
          if \<not> L3_IS_TABLE l3d then
            let l3d1 = (if L3_IS_SW_BLOCK l3d then l3d OR (addr AND VADDR_L3_ALIGN_MASK)
                        else l3d);
                l3d2 = (if L3_IS_HW_BLOCK l3d1
                        then (l3d1 AND NOT PTE_LOWER_ATTRIBUTES) OR (addr AND VADDR_L3_ALIGN_MASK)
                        else l3d1)
            in Inr l3d2
          else
            let idx4 = unat (drop_bit VADDR_L4_OFFSET_BITS addr AND MASK VADDR_L4_INDEX_BITS) in
            load (l3d AND PTE_TARGET_MASK) idx4 s))"

section \<open>Stage-2 page table: properties\<close>

lemma BIT_eq: "BIT n = 2 ^ n"
  by (simp add: BIT_def)

lemma MASK_eq_mask: "MASK n = mask n"
  by (simp add: MASK_def BIT_def mask_eq_exp_minus_1)

lemma aligned_iff: "(x AND MASK n = 0) \<longleftrightarrow> (unat (x::u64) mod 2 ^ n = 0)"
  using and_mask_dvd_nat [of n x] by (auto simp: MASK_eq_mask)

text \<open>A freshly initialised page table with an empty heap, used for concrete runs.\<close>

definition example_pt :: pt_state where
  "example_pt = hv_pt_init \<lparr>hv_L2 = (\<lambda>_. 0), heap = Map.empty, brk = 0x10000000\<rparr>"

text \<open>
  C5. \<open>hv_map\<close> returns \<open>-1\<close> (bad alignment) whenever \<open>from\<close> or \<open>size\<close> is not a
  multiple of 4, and whenever the target is a hardware entry and \<open>from\<close> or \<open>size\<close> is not
  a multiple of 16 KiB. In each of these cases the returned state is the state it was
  called in: no table entry is written, nothing is allocated and nothing is freed.
\<close>

theorem hv_map_badalign:
  assumes "unat from mod 4 \<noteq> 0 \<or> unat sz mod 4 \<noteq> 0
           \<or> (IS_HW to \<and> (unat from mod 16384 \<noteq> 0 \<or> unat sz mod 16384 \<noteq> 0))"
  shows "hv_map from to sz incr s = Inr (- 1, s)"
proof -
  have a: "from AND MASK VADDR_L4_OFFSET_BITS = 0 \<longleftrightarrow> unat from mod 4 = 0"
    by (simp add: aligned_iff VADDR_L4_OFFSET_BITS_def)
  have b: "sz AND MASK VADDR_L4_OFFSET_BITS = 0 \<longleftrightarrow> unat sz mod 4 = 0"
    by (simp add: aligned_iff VADDR_L4_OFFSET_BITS_def)
  have c: "from AND MASK VADDR_L3_OFFSET_BITS = 0 \<longleftrightarrow> unat from mod 16384 = 0"
    by (simp add: aligned_iff VADDR_L3_OFFSET_BITS_def)
  have d: "sz AND MASK VADDR_L3_OFFSET_BITS = 0 \<longleftrightarrow> unat sz mod 16384 = 0"
    by (simp add: aligned_iff VADDR_L3_OFFSET_BITS_def)
  show ?thesis
    using assms unfolding hv_map_def Let_def a b c d by auto
qed

theorem hv_map_badalign_witness:
  "unat (6 :: u64) mod 4 \<noteq> 0 \<and> hv_map 6 0 8 0 example_pt = Inr (- 1, example_pt)"
  using hv_map_badalign [of 6 8 0 0 example_pt] by simp

text \<open>
  C2. After \<open>hv_map_proxy_hook 0x400000 5 4\<close> on a fresh table, the walk of \<open>0x400000\<close>
  reaches a software entry whose L4 target field holds the identifier 5, but whose
  \<open>SPTE_TYPE\<close> field is \<open>SPTE_HOOK\<close> (1), not one of the proxy-hook kinds 2, 3 or 4:
  \<open>hv_map_proxy_hook\<close> builds its descriptor with \<open>SPTE_HOOK\<close>.
\<close>

theorem hv_map_proxy_hook_installs_hook:
  "bind_res (hv_map_proxy_hook 0x400000 5 4 example_pt) (\<lambda>(r, s). hv_pt_walk 0x400000 s)
     = Inr 0x4000000000016
   \<and> IS_SW 0x4000000000016
   \<and> FIELD_GET SPTE_TYPE 0x4000000000016 = SPTE_HOOK
   \<and> FIELD_GET PTE_TARGET_MASK_L4 0x4000000000016 = 5"
  by code_simp

section \<open>Stage-2 page table: round trip of hardware maps\<close>

subsection \<open>Masks and descriptor predicates as bit tests\<close>

lemma PTE_TARGET_MASK_eq: "PTE_TARGET_MASK = push_bit 14 (mask 36)"
  by (simp add: PTE_TARGET_MASK_def GENMASK_def BIT_eq VADDR_L3_OFFSET_BITS_def
      mask_eq_exp_minus_1)

lemma PTE_LOWER_ATTRIBUTES_eq: "PTE_LOWER_ATTRIBUTES = push_bit 2 (mask 12)"
  by (simp add: PTE_LOWER_ATTRIBUTES_def GENMASK_def BIT_eq mask_eq_exp_minus_1)

lemma VADDR_L3_ALIGN_MASK_eq: "VADDR_L3_ALIGN_MASK = push_bit 2 (mask 12)"
  by (simp add: VADDR_L3_ALIGN_MASK_def GENMASK_def BIT_eq VADDR_L3_OFFSET_BITS_def
      VADDR_L4_OFFSET_BITS_def mask_eq_exp_minus_1)

lemma VADDR_L2_ALIGN_MASK_eq: "VADDR_L2_ALIGN_MASK = push_bit 14 (mask 11)"
  by (simp add: VADDR_L2_ALIGN_MASK_def GENMASK_def BIT_eq VADDR_L3_OFFSET_BITS_def
      VADDR_L2_OFFSET_BITS_def mask_eq_exp_minus_1)

lemma PTE_VALID_eq: "PTE_VALID = 1"
  by (simp add: PTE_VALID_def BIT_eq)

lemma PTE_TYPE_eq: "PTE_TYPE = 2"
  by (simp add: PTE_TYPE_def BIT_eq)

lemma and_1_eq_0_iff: "(x :: u64) AND 1 = 0 \<longleftrightarrow> \<not> bit x 0"
  by (simp add: and_one_eq bit_0 even_iff_mod_2_eq_zero)

lemma and_2_cases: "(x :: u64) AND 2 = (if bit x 1 then 2 else 0)"
proof -
  have "(2 :: u64) = push_bit 1 1" by simp
  then have "x AND 2 = push_bit 1 (of_bool (bit x 1))"
    by (simp only:) (rule bit_word_eqI, auto simp: bit_simps)
  then show ?thesis by simp
qed

lemma FIELD_GET_PTE_TYPE: "FIELD_GET PTE_TYPE x = (if bit x 1 then 1 else 0)"
  by (simp add: FIELD_GET_def FIELD_LSB_def PTE_TYPE_eq and_2_cases)

lemma IS_HW_iff: "IS_HW x \<longleftrightarrow> bit x 0"
  by (auto simp: IS_HW_def PTE_VALID_eq and_1_eq_0_iff)

lemma IS_SW_iff: "IS_SW x \<longleftrightarrow> x \<noteq> 0 \<and> \<not> bit x 0"
  by (auto simp: IS_SW_def PTE_VALID_eq and_1_eq_0_iff)

lemma L2_IS_TABLE_iff: "L2_IS_TABLE x \<longleftrightarrow> bit x 1"
  by (auto simp: L2_IS_TABLE_def FIELD_GET_PTE_TYPE PTE_TABLE_def)

lemma L2_IS_HW_BLOCK_iff: "L2_IS_HW_BLOCK x \<longleftrightarrow> bit x 0 \<and> \<not> bit x 1"
  by (auto simp: L2_IS_HW_BLOCK_def FIELD_GET_PTE_TYPE PTE_BLOCK_def IS_HW_iff)

lemma L3_IS_TABLE_iff: "L3_IS_TABLE x \<longleftrightarrow> \<not> bit x 0 \<and> bit x 1"
  by (auto simp: L3_IS_TABLE_def FIELD_GET_PTE_TYPE PTE_TABLE_def IS_SW_iff)

lemma L3_IS_HW_BLOCK_iff: "L3_IS_HW_BLOCK x \<longleftrightarrow> bit x 0 \<and> bit x 1"
  by (auto simp: L3_IS_HW_BLOCK_def FIELD_GET_PTE_TYPE PTE_PAGE_def IS_HW_iff)

lemma L3_IS_SW_BLOCK_imp: "L3_IS_SW_BLOCK x \<Longrightarrow> \<not> bit x 0"
  by (auto simp: L3_IS_SW_BLOCK_def IS_SW_iff)

lemma L2_IS_SW_BLOCK_imp: "L2_IS_SW_BLOCK x \<Longrightarrow> \<not> bit x 0"
  by (auto simp: L2_IS_SW_BLOCK_def IS_SW_iff)

subsection \<open>Page numbers and hardware descriptors\<close>

text \<open>
  \<open>page_addr n\<close> is the address of the 16 KiB page number \<open>n\<close>. \<open>hw_blk q\<close> is the
  descriptor that \<open>hv_map_hw\<close> hands to \<open>hv_map\<close> for the target page \<open>q\<close> (valid bit and
  attributes, type bit clear), and \<open>hw_page q\<close> is the same descriptor with the type bit
  set, as \<open>hv_pt_map_l3\<close> stores it.
\<close>

lemma attr_blk_eq: "PTE_ATTRIBUTES OR PTE_VALID = push_bit 2 (mask 9) OR 1"
  by (simp add: PTE_ATTRIBUTES_def PTE_ACCESS_def PTE_SH_NS_def PTE_S2AP_RW_def
      PTE_MEMATTR_UNCHANGED_def PTE_VALID_def BIT_eq mask_eq_exp_minus_1 push_bit_eq_mult)

lemma attr_blk_num: "PTE_ATTRIBUTES OR PTE_VALID = 0x7FD"
  by (simp add: PTE_ATTRIBUTES_def PTE_ACCESS_def PTE_SH_NS_def PTE_S2AP_RW_def
      PTE_MEMATTR_UNCHANGED_def PTE_VALID_def BIT_eq)

definition page_addr :: "nat \<Rightarrow> u64" where
  "page_addr n = push_bit 14 (of_nat n)"

definition attr_blk :: u64 where
  "attr_blk = push_bit 2 (mask 9) OR 1"

definition attr_page :: u64 where
  "attr_page = mask 11"

lemma bit_attr_blk: "bit attr_blk n \<longleftrightarrow> n < 11 \<and> n \<noteq> 1"
  by (auto simp: attr_blk_def bit_simps bit_1_iff)

lemma bit_attr_page: "bit attr_page n \<longleftrightarrow> n < 11"
  by (auto simp: attr_page_def bit_simps)

lemma attr_page_eq: "attr_blk OR FIELD_PREP PTE_TYPE PTE_PAGE = attr_page"
proof -
  have "FIELD_PREP PTE_TYPE PTE_PAGE = push_bit 1 1"
    by (simp add: FIELD_PREP_def FIELD_LSB_def PTE_TYPE_eq PTE_PAGE_def)
  then show ?thesis
    by (simp only:) (rule bit_word_eqI, auto simp: bit_simps bit_attr_blk bit_attr_page bit_1_iff)
qed

lemma bit_page_addr: "bit (page_addr q) n \<longleftrightarrow> 14 \<le> n \<and> n < 64 \<and> bit (of_nat q :: u64) (n - 14)"
  by (auto simp: page_addr_def bit_simps)

lemma page_addr_add: "page_addr (a + b) = page_addr a + page_addr b"
  by (simp add: page_addr_def push_bit_add)

lemma page_addr_1: "page_addr 1 = BIT VADDR_L3_OFFSET_BITS"
  by (simp add: page_addr_def BIT_eq VADDR_L3_OFFSET_BITS_def)

lemma page_addr_disj:
  assumes "\<And>n. bit c n \<Longrightarrow> n < 14"
  shows "page_addr q AND c = 0"
  by (rule bit_word_eqI) (auto simp: bit_simps bit_page_addr dest: assms)

lemma page_or_add:
  assumes "\<And>n. bit c n \<Longrightarrow> n < 14"
  shows "(page_addr q OR c) + page_addr k = page_addr (q + k) OR c"
proof -
  have "page_addr q OR c = page_addr q + c"
    by (rule disjunctive_add_eq_or [symmetric]) (rule page_addr_disj [OF assms])
  moreover have "page_addr (q + k) OR c = page_addr (q + k) + c"
    by (rule disjunctive_add_eq_or [symmetric]) (rule page_addr_disj [OF assms])
  ultimately show ?thesis by (simp add: page_addr_add)
qed

definition hw_blk :: "nat \<Rightarrow> u64" where
  "hw_blk q = page_addr q OR attr_blk"

definition hw_page :: "nat \<Rightarrow> u64" where
  "hw_page q = page_addr q OR attr_page"

lemma hw_blk_add: "hw_blk q + page_addr k = hw_blk (q + k)"
  unfolding hw_blk_def by (rule page_or_add) (simp add: bit_attr_blk)

lemma hw_page_add: "hw_page q + page_addr k = hw_page (q + k)"
  unfolding hw_page_def by (rule page_or_add) (simp add: bit_attr_page)

lemma hw_page_of_blk: "hw_blk q OR FIELD_PREP PTE_TYPE PTE_PAGE = hw_page q"
  by (simp add: hw_blk_def hw_page_def or.assoc attr_page_eq)

lemma hw_blk_block: "hw_blk q OR FIELD_PREP PTE_TYPE PTE_BLOCK = hw_blk q"
  by (simp add: FIELD_PREP_def PTE_BLOCK_def)

lemma hw_blk_bits: "bit (hw_blk q) 0" "\<not> bit (hw_blk q) 1"
  by (simp_all add: hw_blk_def bit_simps bit_page_addr bit_attr_blk)

lemma hw_page_bits: "bit (hw_page q) 0" "bit (hw_page q) 1"
  by (simp_all add: hw_page_def bit_simps bit_page_addr bit_attr_page)

lemma map_hw_target: "page_addr q OR PTE_ATTRIBUTES OR PTE_VALID = hw_blk q"
  by (simp add: hw_blk_def attr_blk_def or.assoc attr_blk_eq)

lemma of_nat_mask_36: "q < 2 ^ 36 \<Longrightarrow> take_bit 36 (of_nat q :: u64) = of_nat q"
  by (simp add: take_bit_of_nat take_bit_nat_eq_self)

lemma hw_page_target:
  assumes "q < 2 ^ 36"
  shows "((hw_page q AND NOT PTE_LOWER_ATTRIBUTES) OR (addr AND VADDR_L3_ALIGN_MASK))
           AND PTE_TARGET_MASK = page_addr q"
proof -
  have t: "take_bit 36 (of_nat q :: u64) = of_nat q" by (rule of_nat_mask_36 [OF assms])
  have "((hw_page q AND NOT PTE_LOWER_ATTRIBUTES) OR (addr AND VADDR_L3_ALIGN_MASK))
           AND PTE_TARGET_MASK = push_bit 14 (take_bit 36 (of_nat q))"
    unfolding PTE_LOWER_ATTRIBUTES_eq VADDR_L3_ALIGN_MASK_eq PTE_TARGET_MASK_eq hw_page_def
    by (rule bit_word_eqI) (auto simp: bit_simps bit_page_addr bit_attr_page)
  then show ?thesis by (simp add: t page_addr_def)
qed

lemma hw_page_valid:
  "((hw_page q AND NOT PTE_LOWER_ATTRIBUTES) OR (addr AND VADDR_L3_ALIGN_MASK))
     AND PTE_VALID = PTE_VALID"
  unfolding PTE_LOWER_ATTRIBUTES_eq VADDR_L3_ALIGN_MASK_eq PTE_VALID_eq hw_page_def
  by (rule bit_word_eqI) (auto simp: bit_simps bit_page_addr bit_attr_page bit_1_iff)

lemma page_addr_of_nat: "page_addr q = of_nat (16384 * q)"
  by (simp add: page_addr_def push_bit_eq_mult)

lemma unat_page_addr: "q < 2 ^ 50 \<Longrightarrow> unat (page_addr q) = 16384 * q"
  by (simp add: page_addr_of_nat unat_of_nat del: of_nat_mult)

lemma page_addr_inj: "a < 2 ^ 50 \<Longrightarrow> b < 2 ^ 50 \<Longrightarrow> page_addr a = page_addr b \<longleftrightarrow> a = b"
  by (simp add: word_unat_eq_iff unat_page_addr)

lemma page_addr_0 [simp]: "page_addr 0 = 0"
  by (simp add: page_addr_def)

lemma page_addr_eq_0: "a < 2 ^ 50 \<Longrightarrow> page_addr a = 0 \<longleftrightarrow> a = 0"
  using page_addr_inj [of a 0] by simp

lemma page_addr_le: "a < 2 ^ 50 \<Longrightarrow> b < 2 ^ 50 \<Longrightarrow> page_addr a \<le> page_addr b \<longleftrightarrow> a \<le> b"
  by (simp add: word_le_nat_alt unat_page_addr)

lemma page_addr_min:
  "a < 2 ^ 50 \<Longrightarrow> b < 2 ^ 50 \<Longrightarrow> min (page_addr a) (page_addr b) = page_addr (min a b)"
  by (simp add: min_def page_addr_le)

lemma page_addr_diff: "b \<le> a \<Longrightarrow> page_addr a - page_addr b = page_addr (a - b)"
  using page_addr_add [of "a - b" b] by simp

lemma rounds_l3: "q < 2 ^ 50 \<Longrightarrow> unat (drop_bit VADDR_L3_OFFSET_BITS (page_addr q)) = q"
  by (simp add: unat_div unat_page_addr drop_bit_eq_div VADDR_L3_OFFSET_BITS_def)

lemma idx_l2: "q < 2 ^ 50 \<Longrightarrow> unat (drop_bit VADDR_L2_OFFSET_BITS (page_addr q)) = q div 2048"
  by (simp add: unat_div unat_page_addr drop_bit_eq_div VADDR_L2_OFFSET_BITS_def)

lemma idx_l3:
  "q < 2 ^ 50 \<Longrightarrow>
   unat (drop_bit VADDR_L3_OFFSET_BITS (page_addr q) AND MASK VADDR_L3_INDEX_BITS) = q mod 2048"
  by (simp add: MASK_eq_mask take_bit_eq_mask [symmetric] unsigned_take_bit_eq unat_div
      unat_mod unat_page_addr drop_bit_eq_div take_bit_eq_mod VADDR_L3_OFFSET_BITS_def
      VADDR_L3_INDEX_BITS_def)

lemma page_addr_aligned_l3: "page_addr q AND MASK VADDR_L3_OFFSET_BITS = 0"
  unfolding MASK_eq_mask VADDR_L3_OFFSET_BITS_def
  by (rule page_addr_disj) (simp add: bit_simps)

lemma page_addr_2048: "page_addr (2048 * k) = push_bit 25 (of_nat k)"
  by (simp add: page_addr_def push_bit_eq_mult)

lemma page_addr_aligned_l2: "page_addr (2048 * q) AND MASK VADDR_L2_OFFSET_BITS = 0"
  unfolding MASK_eq_mask VADDR_L2_OFFSET_BITS_def page_addr_2048
  by (rule bit_word_eqI) (auto simp: bit_simps)

lemma rounds_l2: "q < 2 ^ 39 \<Longrightarrow> unat (drop_bit VADDR_L2_OFFSET_BITS (page_addr (2048 * q))) = q"
  by (simp add: idx_l2)

definition c14 :: u64 where "c14 = mask 14 AND NOT 1"
definition c25 :: u64 where "c25 = mask 25 AND NOT 1"

lemma MASK_14_minus_1: "MASK VADDR_L3_OFFSET_BITS - 1 = c14"
  by (simp add: MASK_def BIT_eq VADDR_L3_OFFSET_BITS_def c14_def mask_eq_exp_minus_1)

lemma MASK_25_minus_1: "MASK VADDR_L2_OFFSET_BITS - 1 = c25"
  by (simp add: MASK_def BIT_eq VADDR_L2_OFFSET_BITS_def c25_def mask_eq_exp_minus_1)

lemma bit_c14: "bit c14 n \<longleftrightarrow> 1 \<le> n \<and> n < 14"
  by (auto simp: c14_def bit_simps bit_1_iff)

lemma bit_c25: "bit c25 n \<longleftrightarrow> 1 \<le> n \<and> n < 25"
  by (auto simp: c25_def bit_simps bit_1_iff)

lemma c25_split: "c25 = page_addr 2047 + c14"
  by (simp add: c25_def c14_def page_addr_def mask_eq_exp_minus_1)

lemma page_addr_plus_c14: "page_addr q + c14 = page_addr q OR c14"
  by (rule disjunctive_add_eq_or) (rule page_addr_disj, simp add: bit_c14)

lemma ALIGN_UP_l3: "ALIGN_UP (page_addr q) (MASK VADDR_L3_OFFSET_BITS) = page_addr q"
  unfolding ALIGN_UP_def MASK_14_minus_1 page_addr_plus_c14
  by (rule bit_word_eqI) (auto simp: bit_simps bit_c14 bit_page_addr)

lemma ALIGN_DOWN_l3: "ALIGN_DOWN (page_addr q) (MASK VADDR_L3_OFFSET_BITS) = page_addr q"
  unfolding ALIGN_DOWN_def MASK_14_minus_1
  by (rule bit_word_eqI) (auto simp: bit_simps bit_c14 bit_page_addr)

lemma page_addr_round_down:
  assumes "q < 2 ^ 50"
  shows "page_addr q AND NOT (mask 25) = page_addr (2048 * (q div 2048))"
proof -
  have "drop_bit 25 (page_addr q) = of_nat (unat (drop_bit 25 (page_addr q)))"
    by simp
  also have "\<dots> = of_nat (q div 2048)"
    using idx_l2 [OF assms] by (simp only: VADDR_L2_OFFSET_BITS_def)
  finally have d: "drop_bit 25 (page_addr q) = of_nat (q div 2048)" .
  have "page_addr q AND NOT (mask 25) = push_bit 25 (drop_bit 25 (page_addr q))"
    by (rule bit_word_eqI) (auto simp: bit_simps)
  then show ?thesis by (simp only: d page_addr_2048)
qed

lemma ALIGN_DOWN_l2:
  assumes "q < 2 ^ 50"
  shows "ALIGN_DOWN (page_addr q) (MASK VADDR_L2_OFFSET_BITS) = page_addr (2048 * (q div 2048))"
proof -
  have "page_addr q AND NOT c25 = page_addr q AND NOT (mask 25)"
    by (rule bit_word_eqI) (auto simp: bit_simps bit_c25 bit_page_addr)
  then show ?thesis
    unfolding ALIGN_DOWN_def MASK_25_minus_1 by (simp only: page_addr_round_down [OF assms])
qed

lemma ALIGN_UP_l2:
  assumes "q + 2047 < 2 ^ 50"
  shows "ALIGN_UP (page_addr q) (MASK VADDR_L2_OFFSET_BITS)
         = page_addr (2048 * ((q + 2047) div 2048))"
proof -
  have "page_addr q + c25 = (page_addr q + page_addr 2047) + c14"
    by (simp add: c25_split)
  also have "\<dots> = page_addr (q + 2047) + c14"
    by (simp only: page_addr_add)
  also have "\<dots> = page_addr (q + 2047) OR c14"
    by (rule page_addr_plus_c14)
  finally have "page_addr q + c25 = page_addr (q + 2047) OR c14" .
  moreover have "(page_addr (q + 2047) OR c14) AND NOT c25 = page_addr (q + 2047) AND NOT (mask 25)"
    by (rule bit_word_eqI) (auto simp: bit_simps bit_c25 bit_c14 bit_page_addr)
  ultimately show ?thesis
    unfolding ALIGN_UP_def MASK_25_minus_1 by (simp only: page_addr_round_down [OF assms])
qed

lemma hw_blk_l2_align: "hw_blk q AND VADDR_L2_ALIGN_MASK = page_addr (q mod 2048)"
proof -
  have "(of_nat (q mod 2048) :: u64) = take_bit 11 (of_nat q)"
    unfolding take_bit_of_nat by (simp add: take_bit_eq_mod)
  then show ?thesis
    unfolding VADDR_L2_ALIGN_MASK_eq hw_blk_def page_addr_def
    by (simp only:) (rule bit_word_eqI, auto simp: bit_simps bit_attr_blk)
qed

lemma hw_blk_l2_aligned: "hw_blk q AND VADDR_L2_ALIGN_MASK = 0 \<longleftrightarrow> q mod 2048 = 0"
  by (simp add: hw_blk_l2_align page_addr_eq_0)

lemma hw_blk_l2_assert:
  "q mod 2048 = 0 \<Longrightarrow> hw_blk q AND PTE_TARGET_MASK AND MASK VADDR_L2_OFFSET_BITS = 0"
proof -
  assume "q mod 2048 = 0"
  then have z: "hw_blk q AND VADDR_L2_ALIGN_MASK = 0" by (simp add: hw_blk_l2_aligned)
  have "hw_blk q AND PTE_TARGET_MASK AND MASK VADDR_L2_OFFSET_BITS
        = hw_blk q AND VADDR_L2_ALIGN_MASK"
    unfolding PTE_TARGET_MASK_eq VADDR_L2_ALIGN_MASK_eq MASK_eq_mask VADDR_L2_OFFSET_BITS_def
    by (rule bit_word_eqI) (auto simp: bit_simps)
  with z show ?thesis by simp
qed

lemma hw_blk_l3_assert:
  "hw_blk q AND PTE_TARGET_MASK AND MASK VADDR_L3_OFFSET_BITS = 0"
  unfolding PTE_TARGET_MASK_eq MASK_eq_mask VADDR_L3_OFFSET_BITS_def
  by (rule bit_word_eqI) (auto simp: bit_simps)

lemma IS_HW_hw_blk: "IS_HW (hw_blk q)"
  by (simp add: IS_HW_iff hw_blk_bits)

lemma aligned_page_addr:
  assumes "x AND MASK VADDR_L3_OFFSET_BITS = 0"
  shows "x = page_addr (unat x div 16384)"
proof -
  have a: "x AND mask 14 = 0"
    using assms by (simp add: MASK_eq_mask VADDR_L3_OFFSET_BITS_def)
  have nb: "\<not> bit x n" if "n < 14" for n
  proof
    assume "bit x n"
    with that have "bit (x AND mask 14) n" by (simp add: bit_simps)
    with a show False by simp
  qed
  have "unat x div 16384 = unat (drop_bit 14 x)"
    by (simp add: unat_div drop_bit_eq_div)
  then have "page_addr (unat x div 16384) = push_bit 14 (drop_bit 14 x)"
    by (simp add: page_addr_def)
  also have "\<dots> = x"
  proof (rule bit_word_eqI)
    fix n
    show "bit (push_bit 14 (drop_bit 14 x)) n \<longleftrightarrow> bit x n"
    proof (cases "n < 14")
      case True
      with nb [of n] show ?thesis by (simp add: bit_simps)
    next
      case False
      then show ?thesis by (auto simp: bit_simps dest: bit_imp_le_length)
    qed
  qed
  finally show ?thesis by simp
qed

subsection \<open>What a walk finds\<close>

text \<open>
  \<open>pt_inv\<close> is the shape of the tables that \<open>hv_map_hw\<close> builds from an empty root: every
  L2 table descriptor points below \<open>brk\<close> to a live L3 table whose entries are empty or
  hardware entries, and no two L2 entries share an L3 table. \<open>page_ok s pg tq\<close> says that
  the IPA page \<open>pg\<close> is mapped to the target page \<open>tq\<close>, by a 32 MiB block or by an L3
  page entry.
\<close>

definition tbl_ok :: "pt_state \<Rightarrow> u64 \<Rightarrow> bool" where
  "tbl_ok s d \<longleftrightarrow>
     unat (d AND PTE_TARGET_MASK) < unat (brk s) \<and>
     (\<exists>t. heap s (d AND PTE_TARGET_MASK) = Some t \<and> (\<forall>j. t j = 0 \<or> bit (t j) 0))"

definition pt_inv :: "pt_state \<Rightarrow> bool" where
  "pt_inv s \<longleftrightarrow>
     (\<forall>i<2048. bit (hv_L2 s i) 1 \<longrightarrow> tbl_ok s (hv_L2 s i)) \<and>
     (\<forall>i<2048. \<forall>j<2048. bit (hv_L2 s i) 1 \<longrightarrow> bit (hv_L2 s j) 1 \<longrightarrow> i \<noteq> j \<longrightarrow>
        hv_L2 s i AND PTE_TARGET_MASK \<noteq> hv_L2 s j AND PTE_TARGET_MASK)"

definition page_ok :: "pt_state \<Rightarrow> nat \<Rightarrow> nat \<Rightarrow> bool" where
  "page_ok s pg tq \<longleftrightarrow>
     (let d = hv_L2 s (pg div 2048) in
      if bit d 1
      then (\<exists>t. heap s (d AND PTE_TARGET_MASK) = Some t \<and> t (pg mod 2048) = hw_page tq)
      else (\<exists>r. d = hw_blk (2048 * r) \<and> tq = 2048 * r + pg mod 2048))"

lemma hw_page_bit_Suc: "bit (hw_page q) (Suc 0)"
  using hw_page_bits(2) [of q] by simp

lemma hw_blk_bit_Suc: "\<not> bit (hw_blk q) (Suc 0)"
  using hw_blk_bits(2) [of q] by simp

lemma walk_idx_l2: "unat (drop_bit VADDR_L2_OFFSET_BITS (ipa :: u64)) = (unat ipa div 16384) div 2048"
  by (simp add: unat_div drop_bit_eq_div VADDR_L2_OFFSET_BITS_def div_mult2_eq [symmetric])

lemma walk_idx_l3:
  "unat (drop_bit VADDR_L3_OFFSET_BITS (ipa :: u64) AND MASK VADDR_L3_INDEX_BITS)
   = (unat ipa div 16384) mod 2048"
  by (simp add: MASK_eq_mask take_bit_eq_mask [symmetric] unsigned_take_bit_eq unat_div
      unat_mod drop_bit_eq_div take_bit_eq_mod VADDR_L3_OFFSET_BITS_def VADDR_L3_INDEX_BITS_def)

lemma page_addr_target: "q < 2 ^ 36 \<Longrightarrow> page_addr q AND PTE_TARGET_MASK = page_addr q"
proof -
  assume "q < 2 ^ 36"
  then have t: "take_bit 36 (of_nat q :: u64) = of_nat q" by (rule of_nat_mask_36)
  have "page_addr q AND PTE_TARGET_MASK = push_bit 14 (take_bit 36 (of_nat q))"
    unfolding PTE_TARGET_MASK_eq page_addr_def
    by (rule bit_word_eqI) (auto simp: bit_simps)
  then show ?thesis by (simp add: t page_addr_def)
qed

lemma page_addr_split:
  assumes "m < 2048"
  shows "page_addr (2048 * r) OR page_addr m = page_addr (2048 * r + m)"
proof -
  from assms have "take_bit 11 (of_nat m :: u64) = of_nat m"
    by (simp add: take_bit_of_nat take_bit_nat_eq_self)
  then have m: "page_addr m = push_bit 14 (take_bit 11 (of_nat m))"
    by (simp add: page_addr_def)
  have "page_addr (2048 * r) AND page_addr m = 0"
    unfolding page_addr_2048 m by (rule bit_word_eqI) (auto simp: bit_simps)
  then have "page_addr (2048 * r) + page_addr m = page_addr (2048 * r) OR page_addr m"
    by (rule disjunctive_add_eq_or)
  then show ?thesis by (simp add: page_addr_add)
qed

lemma hw_blk_walk_valid: "(hw_blk q OR x) AND PTE_VALID = PTE_VALID"
  unfolding PTE_VALID_eq hw_blk_def
  by (rule bit_word_eqI) (auto simp: bit_simps bit_attr_blk bit_1_iff)

lemma hw_blk_walk_target:
  assumes "2048 * r + unat ipa div 16384 mod 2048 < 2 ^ 36"
  shows "(hw_blk (2048 * r) OR (ipa AND (VADDR_L2_ALIGN_MASK OR VADDR_L3_ALIGN_MASK)))
           AND PTE_TARGET_MASK
         = page_addr (2048 * r + unat ipa div 16384 mod 2048)"
proof -
  define m where "m = unat ipa div 16384 mod 2048"
  have r: "2048 * r < 2 ^ 36" and ml: "m < 2048" using assms by (simp_all add: m_def)
  have "of_nat m = drop_bit VADDR_L3_OFFSET_BITS ipa AND MASK VADDR_L3_INDEX_BITS"
    unfolding m_def walk_idx_l3 [symmetric] by simp
  then have m: "page_addr m = push_bit 14 (take_bit 11 (drop_bit 14 ipa))"
    by (simp add: page_addr_def MASK_eq_mask take_bit_eq_mask VADDR_L3_OFFSET_BITS_def
        VADDR_L3_INDEX_BITS_def)
  have "(hw_blk (2048 * r) OR (ipa AND (VADDR_L2_ALIGN_MASK OR VADDR_L3_ALIGN_MASK)))
           AND PTE_TARGET_MASK
        = (page_addr (2048 * r) AND PTE_TARGET_MASK) OR push_bit 14 (take_bit 11 (drop_bit 14 ipa))"
    unfolding PTE_TARGET_MASK_eq VADDR_L2_ALIGN_MASK_eq VADDR_L3_ALIGN_MASK_eq hw_blk_def
    by (rule bit_word_eqI) (auto simp: bit_simps bit_attr_blk)
  also have "\<dots> = page_addr (2048 * r) OR page_addr m"
    by (simp only: page_addr_target [OF r] m)
  also have "\<dots> = page_addr (2048 * r + m)"
    by (rule page_addr_split [OF ml])
  finally show ?thesis by (simp only: m_def)
qed

lemma walk_page_ok:
  assumes ok: "page_ok s pg tq" and pg: "pg < 2 ^ 22" and tq: "tq < 2 ^ 36"
    and ipa: "unat ipa div 16384 = pg"
  shows "\<exists>pte. hv_pt_walk ipa s = Inr pte \<and> pte AND PTE_VALID = PTE_VALID
           \<and> pte AND PTE_TARGET_MASK = page_addr tq"
proof -
  define d where "d = hv_L2 s (pg div 2048)"
  have i2: "unat (drop_bit VADDR_L2_OFFSET_BITS ipa) = pg div 2048"
    by (simp only: walk_idx_l2 ipa)
  have i3: "unat (drop_bit VADDR_L3_OFFSET_BITS ipa AND MASK VADDR_L3_INDEX_BITS) = pg mod 2048"
    by (simp only: walk_idx_l3 ipa)
  have b: "\<not> ENTRIES_PER_L2_TABLE \<le> pg div 2048"
    using pg by (simp add: ENTRIES_PER_L2_TABLE_def VADDR_L2_INDEX_BITS_def)
  show ?thesis
  proof (cases "bit d 1")
    case True
    with ok obtain t where t: "heap s (d AND PTE_TARGET_MASK) = Some t"
      "t (pg mod 2048) = hw_page tq"
      by (auto simp: page_ok_def d_def)
    have nsw: "\<not> L3_IS_SW_BLOCK (hw_page tq)"
      using L3_IS_SW_BLOCK_imp [of "hw_page tq"] by (auto simp: hw_page_bits)
    have "hv_pt_walk ipa s
          = Inr ((hw_page tq AND NOT PTE_LOWER_ATTRIBUTES) OR (ipa AND VADDR_L3_ALIGN_MASK))"
      using True t b
      by (simp add: hv_pt_walk_def i2 i3 d_def [symmetric] L2_IS_TABLE_iff load_def
          L3_IS_TABLE_iff L3_IS_HW_BLOCK_iff hw_page_bits hw_page_bit_Suc nsw Let_def)
    then show ?thesis
      by (simp add: hw_page_valid hw_page_target [OF tq])
  next
    case False
    with ok obtain r where r: "d = hw_blk (2048 * r)" "tq = 2048 * r + pg mod 2048"
      by (auto simp: page_ok_def d_def)
    have "hv_pt_walk ipa s
          = Inr (hw_blk (2048 * r) OR (ipa AND (VADDR_L2_ALIGN_MASK OR VADDR_L3_ALIGN_MASK)))"
      using False b unfolding r(1)
      by (simp add: hv_pt_walk_def i2 d_def [symmetric] r(1) L2_IS_TABLE_iff
          L2_IS_HW_BLOCK_iff hw_blk_bits hw_blk_bit_Suc)
    moreover have "2048 * r + unat ipa div 16384 mod 2048 < 2 ^ 36"
      using tq r(2) ipa by simp
    ultimately show ?thesis
      using r(2) ipa by (simp add: hw_blk_walk_valid hw_blk_walk_target)
  qed
qed

subsection \<open>One round of the L3 loop\<close>

text \<open>
  \<open>l3_alloc s\<close> is the address that \<open>memalign\<close> hands out for a new L3 table.
\<close>

lemma round_down_page: "(x :: u64) AND NOT (mask 14) = page_addr (unat x div 16384)"
proof -
  have "unat x div 16384 = unat (drop_bit 14 x)"
    by (simp add: unat_div drop_bit_eq_div)
  then have "page_addr (unat x div 16384) = push_bit 14 (drop_bit 14 x)"
    by (simp add: page_addr_def)
  also have "\<dots> = x AND NOT (mask 14)"
    by (rule bit_word_eqI) (auto simp: bit_simps)
  finally show ?thesis by simp
qed

definition l3_alloc :: "pt_state \<Rightarrow> u64" where
  "l3_alloc s = (brk s + (PAGE_SIZE - 1)) AND NOT (PAGE_SIZE - 1)"

lemma l3_alloc_eq:
  assumes "unat (brk s) + 16383 < 2 ^ 64"
  shows "l3_alloc s = page_addr ((unat (brk s) + 16383) div 16384)"
proof -
  have m: "PAGE_SIZE - 1 = mask 14"
    by (simp add: PAGE_SIZE_def mask_eq_exp_minus_1)
  have u: "unat (mask 14 :: u64) = 16383"
    by (simp add: mask_eq_exp_minus_1)
  have "unat (brk s + mask 14) = unat (brk s) + unat (mask 14 :: u64)"
    using assms by (subst unat_add_lem [symmetric]) (simp add: u)
  then show ?thesis
    by (simp add: l3_alloc_def m round_down_page u)
qed

lemma table_desc_target:
  assumes "q < 2 ^ 36"
  shows "(page_addr q OR FIELD_PREP PTE_TYPE PTE_TABLE OR PTE_VALID) AND PTE_TARGET_MASK
         = page_addr q"
proof -
  have f: "FIELD_PREP PTE_TYPE PTE_TABLE OR PTE_VALID = mask 2"
    by (simp add: FIELD_PREP_def FIELD_LSB_def PTE_TYPE_eq PTE_TABLE_def PTE_VALID_eq
        mask_eq_exp_minus_1)
  have "(page_addr q OR mask 2) AND PTE_TARGET_MASK = page_addr q AND PTE_TARGET_MASK"
    unfolding PTE_TARGET_MASK_eq
    by (rule bit_word_eqI) (auto simp: bit_simps)
  then show ?thesis
    by (simp only: or.assoc f page_addr_target [OF assms])
qed

lemma table_desc_bit: "bit (x OR FIELD_PREP PTE_TYPE PTE_TABLE OR PTE_VALID) (Suc 0)"
  by (simp add: FIELD_PREP_def FIELD_LSB_def PTE_TYPE_eq PTE_TABLE_def bit_simps)

lemma L3_entry_not_table: "x = 0 \<or> bit x 0 \<Longrightarrow> \<not> L3_IS_TABLE x"
  by (auto simp: L3_IS_TABLE_iff)

lemma l2_index_bound: "F < 2 ^ 22 \<Longrightarrow> \<not> ENTRIES_PER_L2_TABLE \<le> F div 2048"
  by (simp add: ENTRIES_PER_L2_TABLE_def VADDR_L2_INDEX_BITS_def)

lemma map_l3_step_table:
  assumes "F < 2 ^ 22"
    and "bit (hv_L2 s (F div 2048)) (Suc 0)"
    and "heap s (hv_L2 s (F div 2048) AND PTE_TARGET_MASK) = Some t"
    and "\<not> L3_IS_TABLE (t (F mod 2048))"
  shows "map_l3_step (page_addr F) v s
         = Inr (s\<lparr>heap := (heap s)(hv_L2 s (F div 2048) AND PTE_TARGET_MASK
                                      \<mapsto> t(F mod 2048 := v))\<rparr>)"
  using assms
  by (simp add: map_l3_step_def hv_pt_get_l3_def idx_l2 idx_l3 l2_index_bound
      L2_IS_TABLE_iff load_def store_def Let_def)

lemma l3_table_bytes: "of_nat ENTRIES_PER_L3_TABLE * 8 = (0x4000 :: u64)"
  by (simp add: ENTRIES_PER_L3_TABLE_def VADDR_L3_INDEX_BITS_def)

lemma map_l3_step_alloc:
  assumes "F < 2 ^ 22" and "hv_L2 s (F div 2048) = 0"
  shows "map_l3_step (page_addr F) v s
         = Inr (s\<lparr>brk := l3_alloc s + 0x4000,
                  heap := (heap s)(l3_alloc s \<mapsto> (\<lambda>_. 0)(F mod 2048 := v)),
                  hv_L2 := (hv_L2 s)(F div 2048 :=
                     l3_alloc s OR FIELD_PREP PTE_TYPE PTE_TABLE OR PTE_VALID)\<rparr>)"
  using assms
  by (simp add: map_l3_step_def hv_pt_get_l3_def idx_l2 idx_l3 l2_index_bound
      L2_IS_TABLE_iff load_def store_def Let_def memalign_def l3_alloc_def
      l3_table_bytes L3_entry_not_table)

definition step_post :: "pt_state \<Rightarrow> pt_state \<Rightarrow> nat \<Rightarrow> nat \<Rightarrow> bool" where
  "step_post s s' F T \<longleftrightarrow>
     pt_inv s' \<and> unat (brk s) \<le> unat (brk s') \<and> unat (brk s') \<le> unat (brk s) + 2 ^ 15 \<and>
     (\<forall>i. i \<noteq> F div 2048 \<longrightarrow> hv_L2 s' i = hv_L2 s i) \<and>
     bit (hv_L2 s' (F div 2048)) (Suc 0) \<and>
     page_ok s' F T \<and>
     (\<forall>pg tq. pg < 2 ^ 22 \<longrightarrow> pg \<noteq> F \<longrightarrow> page_ok s pg tq \<longrightarrow> page_ok s' pg tq)"

lemma hw_page_bit0: "bit (hw_page q) 0"
  by (rule hw_page_bits(1))

lemma pt_inv_tbl:
  "pt_inv s \<Longrightarrow> i < 2048 \<Longrightarrow> bit (hv_L2 s i) (Suc 0) \<Longrightarrow> tbl_ok s (hv_L2 s i)"
  by (simp add: pt_inv_def)

lemma pt_inv_distinct:
  "pt_inv s \<Longrightarrow> i < 2048 \<Longrightarrow> j < 2048 \<Longrightarrow> bit (hv_L2 s i) (Suc 0) \<Longrightarrow>
   bit (hv_L2 s j) (Suc 0) \<Longrightarrow> i \<noteq> j \<Longrightarrow>
   hv_L2 s i AND PTE_TARGET_MASK \<noteq> hv_L2 s j AND PTE_TARGET_MASK"
  by (simp add: pt_inv_def)

lemma map_l3_step_table_post:
  assumes inv: "pt_inv s" and F: "F < 2 ^ 22"
    and tb: "bit (hv_L2 s (F div 2048)) (Suc 0)"
  shows "\<exists>s'. map_l3_step (page_addr F) (hw_page T) s = Inr s' \<and> step_post s s' F T"
proof -
  define i where "i = F div 2048"
  define m where "m = F mod 2048"
  define p where "p = hv_L2 s i AND PTE_TARGET_MASK"
  have i: "i < 2048" using F by (simp add: i_def)
  from pt_inv_tbl [OF inv i] tb obtain t where
    t: "heap s p = Some t" "\<forall>j. t j = 0 \<or> bit (t j) 0" and pb: "unat p < unat (brk s)"
    by (auto simp: tbl_ok_def i_def p_def)
  define s' where "s' = s\<lparr>heap := (heap s)(p \<mapsto> t(m := hw_page T))\<rparr>"
  have L2: "hv_L2 s' = hv_L2 s" and B: "brk s' = brk s"
    and H: "heap s' = (heap s)(p \<mapsto> t(m := hw_page T))"
    by (simp_all add: s'_def)
  have nt: "\<not> L3_IS_TABLE (t (F mod 2048))"
    using t(2) by (intro L3_entry_not_table) simp
  have run: "map_l3_step (page_addr F) (hw_page T) s = Inr s'"
    using map_l3_step_table [OF F tb t(1) [unfolded p_def i_def] nt]
    by (simp add: s'_def p_def i_def m_def)
  have tbl: "tbl_ok s' (hv_L2 s j)" if "tbl_ok s (hv_L2 s j)" for j
    using that t(2) by (auto simp: tbl_ok_def B H hw_page_bit0)
  have inv': "pt_inv s'"
    using inv tbl by (simp add: pt_inv_def L2)
  have ok: "page_ok s' F T"
    using tb by (simp add: page_ok_def L2 H i_def [symmetric] m_def [symmetric] p_def [symmetric])
  have pres: "page_ok s' pg tq" if pg: "pg < 2 ^ 22" "pg \<noteq> F" and o: "page_ok s pg tq" for pg tq
  proof (cases "bit (hv_L2 s (pg div 2048)) (Suc 0)")
    case False
    with o show ?thesis by (simp add: page_ok_def L2)
  next
    case True
    with o obtain u where u: "heap s (hv_L2 s (pg div 2048) AND PTE_TARGET_MASK) = Some u"
      "u (pg mod 2048) = hw_page tq"
      by (auto simp: page_ok_def)
    show ?thesis
    proof (cases "pg div 2048 = i")
      case same: True
      then have "pg mod 2048 \<noteq> m"
        using pg(2) unfolding i_def m_def by (metis div_mult_mod_eq)
      moreover have "u = t" using u(1) t(1) same by (simp add: p_def)
      ultimately show ?thesis
        using True u(2) same by (simp add: page_ok_def L2 H p_def [symmetric])
    next
      case other: False
      have "pg div 2048 < 2048" using pg(1) by simp
      from pt_inv_distinct [OF inv this i True tb [folded i_def] other]
      have "hv_L2 s (pg div 2048) AND PTE_TARGET_MASK \<noteq> p" by (simp add: p_def)
      then show ?thesis
        using True u by (simp add: page_ok_def L2 H)
    qed
  qed
  have "step_post s s' F T"
    unfolding step_post_def using inv' ok pres tb by (simp add: L2 B)
  with run show ?thesis by blast
qed

lemma map_l3_step_alloc_post:
  assumes inv: "pt_inv s" and F: "F < 2 ^ 22"
    and z: "hv_L2 s (F div 2048) = 0"
    and bk: "unat (brk s) + 2 ^ 15 \<le> 2 ^ 50"
  shows "\<exists>s'. map_l3_step (page_addr F) (hw_page T) s = Inr s' \<and> step_post s s' F T"
proof -
  define i where "i = F div 2048"
  define m where "m = F mod 2048"
  define P where "P = (unat (brk s) + 16383) div 16384"
  define d where "d = page_addr P OR FIELD_PREP PTE_TYPE PTE_TABLE OR PTE_VALID"
  have i: "i < 2048" using F by (simp add: i_def)
  have P: "P < 2 ^ 36" "unat (brk s) \<le> 16384 * P" "16384 * P \<le> unat (brk s) + 16383"
    using bk by (simp_all add: P_def)
  have al: "l3_alloc s = page_addr P"
    unfolding P_def using bk by (intro l3_alloc_eq) simp
  have up: "unat (page_addr P) = 16384 * P"
    using P(1) by (intro unat_page_addr) simp
  have one: "page_addr 1 = 0x4000"
    by (simp add: page_addr_def)
  have "page_addr P + 0x4000 = page_addr (P + 1)"
    by (simp only: page_addr_add one)
  moreover have "unat (page_addr (P + 1)) = 16384 * (P + 1)"
    using P(1) by (intro unat_page_addr) simp
  ultimately have ub: "unat (page_addr P + 0x4000) = 16384 * P + 16384" by simp
  have dt: "d AND PTE_TARGET_MASK = page_addr P"
    unfolding d_def by (rule table_desc_target [OF P(1)])
  have db: "bit d (Suc 0)"
    unfolding d_def by (rule table_desc_bit)
  define s' where "s' = s\<lparr>brk := page_addr P + 0x4000,
      heap := (heap s)(page_addr P \<mapsto> (\<lambda>_. 0)(m := hw_page T)),
      hv_L2 := (hv_L2 s)(i := d)\<rparr>"
  have L2: "hv_L2 s' = (hv_L2 s)(i := d)" and B: "unat (brk s') = 16384 * P + 16384"
    and H: "heap s' = (heap s)(page_addr P \<mapsto> (\<lambda>_. 0)(m := hw_page T))"
    by (simp_all add: s'_def ub)
  have run: "map_l3_step (page_addr F) (hw_page T) s = Inr s'"
    using map_l3_step_alloc [OF F z]
    by (simp add: s'_def al i_def m_def d_def)
  have old: "hv_L2 s j AND PTE_TARGET_MASK \<noteq> page_addr P \<and> tbl_ok s' (hv_L2 s j)"
    if "j < 2048" "bit (hv_L2 s j) (Suc 0)" for j
  proof -
    from pt_inv_tbl [OF inv that] have k: "tbl_ok s (hv_L2 s j)" .
    then have "unat (hv_L2 s j AND PTE_TARGET_MASK) < unat (page_addr P)"
      using P(2) by (simp add: tbl_ok_def up)
    then have ne: "hv_L2 s j AND PTE_TARGET_MASK \<noteq> page_addr P" by auto
    with k P(2) show ?thesis by (auto simp: tbl_ok_def B H)
  qed
  have new: "tbl_ok s' d"
    by (simp add: tbl_ok_def dt B H up hw_page_bit0)
  have zi: "\<not> bit (hv_L2 s i) (Suc 0)" using z by (simp add: i_def)
  have inv': "pt_inv s'"
    unfolding pt_inv_def L2
  proof (intro conjI allI impI)
    fix a assume "a < 2048" "bit (((hv_L2 s)(i := d)) a) 1"
    then show "tbl_ok s' (((hv_L2 s)(i := d)) a)"
      using old [of a] new by (cases "a = i") simp_all
  next
    fix a b assume a0: "a < 2048" "b < 2048" "bit (((hv_L2 s)(i := d)) a) 1"
      "bit (((hv_L2 s)(i := d)) b) 1" "a \<noteq> b"
    then have a: "a < 2048" "b < 2048" "bit (((hv_L2 s)(i := d)) a) (Suc 0)"
      "bit (((hv_L2 s)(i := d)) b) (Suc 0)" "a \<noteq> b"
      by simp_all
    show "((hv_L2 s)(i := d)) a AND PTE_TARGET_MASK \<noteq> ((hv_L2 s)(i := d)) b AND PTE_TARGET_MASK"
    proof (cases "a = i")
      case True
      with a old [of b] show ?thesis by (auto simp: dt)
    next
      case na: False
      show ?thesis
      proof (cases "b = i")
        case True
        with a na old [of a] show ?thesis by (auto simp: dt)
      next
        case False
        with na a pt_inv_distinct [OF inv a(1) a(2)] show ?thesis by simp
      qed
    qed
  qed
  have ok: "page_ok s' F T"
    using db by (simp add: page_ok_def L2 H i_def [symmetric] m_def [symmetric] dt)
  have pres: "page_ok s' pg tq" if pg: "pg < 2 ^ 22" "pg \<noteq> F" and o: "page_ok s pg tq" for pg tq
  proof (cases "pg div 2048 = i")
    case True
    with o z have "\<exists>r. (0 :: u64) = hw_blk (2048 * r)"
      by (auto simp: page_ok_def i_def)
    then obtain r where "(0 :: u64) = hw_blk (2048 * r)" ..
    then have "bit (0 :: u64) 0" using hw_blk_bits(1) [of "2048 * r"] by simp
    then show ?thesis by simp
  next
    case other: False
    show ?thesis
    proof (cases "bit (hv_L2 s (pg div 2048)) (Suc 0)")
      case False
      with o other show ?thesis by (simp add: page_ok_def L2)
    next
      case True
      have "pg div 2048 < 2048" using pg(1) by simp
      from old [OF this True] have "hv_L2 s (pg div 2048) AND PTE_TARGET_MASK \<noteq> page_addr P" ..
      with o other True show ?thesis by (simp add: page_ok_def L2 H)
    qed
  qed
  have "unat (brk s) \<le> unat (brk s')" "unat (brk s') \<le> unat (brk s) + 2 ^ 15"
    using P(2,3) by (simp_all add: B)
  then have "step_post s s' F T"
    unfolding step_post_def using inv' ok pres db by (simp add: L2 i_def)
  with run show ?thesis by blast
qed

lemma map_l3_step_post:
  assumes "pt_inv s" and "F < 2 ^ 22"
    and "hv_L2 s (F div 2048) = 0 \<or> bit (hv_L2 s (F div 2048)) (Suc 0)"
    and "unat (brk s) + 2 ^ 15 \<le> 2 ^ 50"
  shows "\<exists>s'. map_l3_step (page_addr F) (hw_page T) s = Inr s' \<and> step_post s s' F T"
  using assms map_l3_step_alloc_post map_l3_step_table_post by blast

subsection \<open>The L3 and L2 loops\<close>

definition noblk :: "pt_state \<Rightarrow> nat \<Rightarrow> bool" where
  "noblk s lo \<longleftrightarrow> (\<forall>i\<ge>lo. hv_L2 s i = 0 \<or> bit (hv_L2 s i) (Suc 0))"

definition loop_post :: "pt_state \<Rightarrow> pt_state \<Rightarrow> nat \<Rightarrow> nat \<Rightarrow> nat \<Rightarrow> bool" where
  "loop_post s s' F T n \<longleftrightarrow>
     pt_inv s' \<and> unat (brk s') \<le> unat (brk s) + 2 ^ 15 * n \<and>
     (\<forall>i. (\<forall>k<n. (F + k) div 2048 \<noteq> i) \<longrightarrow> hv_L2 s' i = hv_L2 s i) \<and>
     (\<forall>i. hv_L2 s' i = hv_L2 s i \<or> bit (hv_L2 s' i) (Suc 0)) \<and>
     (\<forall>k<n. page_ok s' (F + k) (T + k)) \<and>
     (\<forall>pg tq. pg < 2 ^ 22 \<longrightarrow> pg < F \<or> F + n \<le> pg \<longrightarrow> page_ok s pg tq \<longrightarrow> page_ok s' pg tq)"

lemma loop_post_0: "pt_inv s \<Longrightarrow> loop_post s s F T 0"
  by (simp add: loop_post_def)

lemma loop_post_Suc:
  assumes a: "step_post s s1 F T" and b: "loop_post s1 s' (F + 1) (T + 1) n"
    and F: "F < 2 ^ 22"
  shows "loop_post s s' F T (Suc n)"
proof -
  have inv: "pt_inv s'" using b by (simp add: loop_post_def)
  have bk: "unat (brk s') \<le> unat (brk s) + 2 ^ 15 * Suc n"
    using a b by (simp add: loop_post_def step_post_def)
  have same: "hv_L2 s' i = hv_L2 s i" if "\<forall>k<Suc n. (F + k) div 2048 \<noteq> i" for i
  proof -
    from that have "F div 2048 \<noteq> i" by (metis add.right_neutral zero_less_Suc)
    with a have 1: "hv_L2 s1 i = hv_L2 s i" by (auto simp: step_post_def)
    have "\<forall>k<n. (F + 1 + k) div 2048 \<noteq> i"
    proof (intro allI impI)
      fix k assume "k < n"
      then have "Suc k < Suc n" by simp
      with that have "(F + Suc k) div 2048 \<noteq> i" by blast
      then show "(F + 1 + k) div 2048 \<noteq> i" by simp
    qed
    with b have "hv_L2 s' i = hv_L2 s1 i" by (simp add: loop_post_def)
    with 1 show ?thesis by simp
  qed
  have tab: "hv_L2 s' i = hv_L2 s i \<or> bit (hv_L2 s' i) (Suc 0)" for i
  proof -
    from b have 1: "hv_L2 s' i = hv_L2 s1 i \<or> bit (hv_L2 s' i) (Suc 0)"
      by (simp add: loop_post_def)
    from a have 2: "i \<noteq> F div 2048 \<longrightarrow> hv_L2 s1 i = hv_L2 s i"
      and 3: "bit (hv_L2 s1 (F div 2048)) (Suc 0)"
      by (simp_all add: step_post_def)
    from 1 2 3 show ?thesis by (cases "i = F div 2048") auto
  qed
  have ok: "page_ok s' (F + k) (T + k)" if "k < Suc n" for k
  proof (cases k)
    case 0
    from a have "page_ok s1 F T" by (simp add: step_post_def)
    with b F have "page_ok s' F T" by (simp add: loop_post_def)
    with 0 show ?thesis by simp
  next
    case (Suc j)
    with that have "j < n" by simp
    with b have "page_ok s' (F + 1 + j) (T + 1 + j)" by (simp add: loop_post_def)
    with Suc show ?thesis by simp
  qed
  have pres: "page_ok s' pg tq"
    if "pg < 2 ^ 22" "pg < F \<or> F + Suc n \<le> pg" "page_ok s pg tq" for pg tq
  proof -
    from that have "pg \<noteq> F" by auto
    with a that have "page_ok s1 pg tq" by (simp add: step_post_def)
    moreover from that have "pg < F + 1 \<or> F + 1 + n \<le> pg" by auto
    ultimately show ?thesis using b that(1) unfolding loop_post_def by blast
  qed
  show ?thesis
    unfolding loop_post_def using inv bk same tab ok pres by blast
qed

lemma noblk_step:
  assumes "noblk s (F div 2048)" and "step_post s s1 F T"
  shows "noblk s1 ((F + 1) div 2048)"
  unfolding noblk_def
proof (intro allI impI)
  fix i assume i: "(F + 1) div 2048 \<le> i"
  have "F div 2048 \<le> (F + 1) div 2048" by (rule div_le_mono) simp
  with i have "F div 2048 \<le> i" by simp
  with assms(1) have "hv_L2 s i = 0 \<or> bit (hv_L2 s i) (Suc 0)" by (simp add: noblk_def)
  moreover from assms(2) have "i \<noteq> F div 2048 \<longrightarrow> hv_L2 s1 i = hv_L2 s i"
    and "bit (hv_L2 s1 (F div 2048)) (Suc 0)"
    by (simp_all add: step_post_def)
  ultimately show "hv_L2 s1 i = 0 \<or> bit (hv_L2 s1 i) (Suc 0)"
    by (cases "i = F div 2048") auto
qed

lemma map_l3_loop_post:
  assumes "pt_inv s" and "F + n \<le> 2 ^ 22" and "noblk s (F div 2048)"
    and "unat (brk s) + 2 ^ 15 * n \<le> 2 ^ 50"
  shows "\<exists>s'. map_l3_loop n (page_addr F) (hw_page T) 1 s = Inr s' \<and> loop_post s s' F T n"
  using assms
proof (induction n arbitrary: F T s)
  case 0
  then show ?case by (simp add: loop_post_0)
next
  case (Suc n)
  have F: "F < 2 ^ 22" using Suc.prems(2) by simp
  have nb: "hv_L2 s (F div 2048) = 0 \<or> bit (hv_L2 s (F div 2048)) (Suc 0)"
    using Suc.prems(3) by (simp add: noblk_def)
  have bk: "unat (brk s) + 2 ^ 15 \<le> 2 ^ 50" using Suc.prems(4) by simp
  from map_l3_step_post [OF Suc.prems(1) F nb bk, of T] obtain s1 where
    s1: "map_l3_step (page_addr F) (hw_page T) s = Inr s1" "step_post s s1 F T"
    by blast
  have inv1: "pt_inv s1" using s1(2) by (simp add: step_post_def)
  have bk1: "unat (brk s1) + 2 ^ 15 * n \<le> 2 ^ 50"
    using s1(2) Suc.prems(4) by (simp add: step_post_def)
  have r1: "F + 1 + n \<le> 2 ^ 22" using Suc.prems(2) by simp
  from Suc.IH [OF inv1 r1 noblk_step [OF Suc.prems(3) s1(2)] bk1, of "T + 1"] obtain s' where
    s': "map_l3_loop n (page_addr (F + 1)) (hw_page (T + 1)) 1 s1 = Inr s'"
    "loop_post s1 s' (F + 1) (T + 1) n"
    by blast
  have a1: "page_addr F + BIT VADDR_L3_OFFSET_BITS = page_addr (F + 1)"
    by (simp only: page_addr_add page_addr_1)
  have a2: "hw_page T + BIT VADDR_L3_OFFSET_BITS = hw_page (T + 1)"
    by (simp only: hw_page_add [symmetric] page_addr_1)
  have "map_l3_loop (Suc n) (page_addr F) (hw_page T) 1 s = Inr s'"
    using s1(1) s'(1) by (simp add: a1 a2)
  with loop_post_Suc [OF s1(2) s'(2) F] show ?case by blast
qed

lemma BIT_25_page: "BIT VADDR_L2_OFFSET_BITS = page_addr 2048"
  by (simp add: BIT_eq VADDR_L2_OFFSET_BITS_def page_addr_def)

lemma map_l2_step_plain:
  assumes "I < 2048" and "\<not> bit (hv_L2 s I) (Suc 0)"
  shows "map_l2_step (page_addr (2048 * I)) v s = Inr (s\<lparr>hv_L2 := (hv_L2 s)(I := v)\<rparr>)"
  using assms
  by (simp add: map_l2_step_def idx_l2 ENTRIES_PER_L2_TABLE_def VADDR_L2_INDEX_BITS_def
      L2_IS_TABLE_iff Let_def)

definition l2_post :: "pt_state \<Rightarrow> pt_state \<Rightarrow> nat \<Rightarrow> nat \<Rightarrow> nat \<Rightarrow> bool" where
  "l2_post s s' I R n \<longleftrightarrow>
     heap s' = heap s \<and> brk s' = brk s \<and>
     (\<forall>i. hv_L2 s' i = (if I \<le> i \<and> i < I + n then hw_blk (2048 * (R + (i - I)))
                         else hv_L2 s i))"

lemma map_l2_loop_post:
  assumes "I + n \<le> 2048" and "\<forall>i. I \<le> i \<and> i < I + n \<longrightarrow> \<not> bit (hv_L2 s i) (Suc 0)"
  shows "\<exists>s'. map_l2_loop n (page_addr (2048 * I)) (hw_blk (2048 * R)) 1 s = Inr s'
           \<and> l2_post s s' I R n"
  using assms
proof (induction n arbitrary: I R s)
  case 0
  then show ?case by (auto simp: l2_post_def)
next
  case (Suc n)
  define s1 where "s1 = s\<lparr>hv_L2 := (hv_L2 s)(I := hw_blk (2048 * R))\<rparr>"
  have I: "I < 2048" using Suc.prems(1) by simp
  have nb: "\<not> bit (hv_L2 s I) (Suc 0)" using Suc.prems(2) by simp
  have st: "map_l2_step (page_addr (2048 * I)) (hw_blk (2048 * R)) s = Inr s1"
    unfolding s1_def by (rule map_l2_step_plain [OF I nb])
  have r: "Suc I + n \<le> 2048" using Suc.prems(1) by simp
  have p: "\<forall>i. Suc I \<le> i \<and> i < Suc I + n \<longrightarrow> \<not> bit (hv_L2 s1 i) (Suc 0)"
    using Suc.prems(2) by (simp add: s1_def)
  from Suc.IH [OF r p, of "Suc R"] obtain s' where
    s': "map_l2_loop n (page_addr (2048 * Suc I)) (hw_blk (2048 * Suc R)) 1 s1 = Inr s'"
    "l2_post s1 s' (Suc I) (Suc R) n"
    by blast
  have a1: "page_addr (2048 * I) + page_addr 2048 = page_addr (2048 * Suc I)"
    by (simp add: page_addr_add [symmetric] add.commute)
  have "2048 * Suc R = 2048 * R + 2048" by simp
  then have a2: "hw_blk (2048 * R) + page_addr 2048 = hw_blk (2048 * Suc R)"
    by (simp only: hw_blk_add)
  have run: "map_l2_loop (Suc n) (page_addr (2048 * I)) (hw_blk (2048 * R)) 1 s = Inr s'"
    using st s'(1) by (simp add: BIT_25_page a1 a2)
  have "l2_post s s' I R (Suc n)"
    unfolding l2_post_def
  proof (intro conjI allI)
    show "heap s' = heap s" "brk s' = brk s"
      using s'(2) by (simp_all add: l2_post_def s1_def)
    fix i
    from s'(2) have "hv_L2 s' i = (if Suc I \<le> i \<and> i < Suc I + n
        then hw_blk (2048 * (Suc R + (i - Suc I))) else hv_L2 s1 i)"
      by (simp add: l2_post_def)
    moreover have "Suc R + (i - Suc I) = R + (i - I)" if "Suc I \<le> i"
      using that by simp
    ultimately show "hv_L2 s' i = (if I \<le> i \<and> i < I + Suc n
        then hw_blk (2048 * (R + (i - I))) else hv_L2 s i)"
      by (cases "i = I") (auto simp: s1_def)
  qed
  with run show ?case by blast
qed

subsection \<open>The segments of \<open>hv_map\<close>\<close>

text \<open>
  For a page-aligned hardware map of \<open>N\<close> pages from page \<open>F\<close>, \<open>hv_map\<close> maps \<open>head_n F N\<close>
  pages at L3 up to the next 32 MiB boundary, then \<open>body_n\<close> whole 32 MiB blocks at L2
  (none when the target is not 32 MiB aligned there), then the remaining pages at L3.
\<close>

definition head_n :: "nat \<Rightarrow> nat \<Rightarrow> nat" where
  "head_n F N = min N (2048 * ((F + 2047) div 2048) - F)"

definition body_n :: "nat \<Rightarrow> nat \<Rightarrow> nat" where
  "body_n T N = (if T mod 2048 = 0 then N div 2048 else 0)"

lemma page_addr_aligned_l4: "page_addr q AND MASK VADDR_L4_OFFSET_BITS = 0"
  unfolding MASK_eq_mask VADDR_L4_OFFSET_BITS_def
  by (rule page_addr_disj) (simp add: bit_simps)

lemma bind_res_assoc:
  "bind_res (bind_res m f) g = bind_res m (\<lambda>x. bind_res (f x) g)"
  by (cases m) simp_all

lemma hv_pt_map_l3_hw:
  "n < 2 ^ 50 \<Longrightarrow>
   hv_pt_map_l3 (page_addr F) (hw_blk T) (page_addr n) 1 s
   = map_l3_loop n (page_addr F) (hw_page T) 1 s"
  by (simp add: hv_pt_map_l3_def page_addr_aligned_l3 hw_blk_l3_assert IS_HW_hw_blk rounds_l3
      hw_page_of_blk)

lemma hv_pt_map_l2_hw:
  "n < 2 ^ 39 \<Longrightarrow> F mod 2048 = 0 \<Longrightarrow> T mod 2048 = 0 \<Longrightarrow>
   hv_pt_map_l2 (page_addr F) (hw_blk T) (page_addr (2048 * n)) 1 s
   = map_l2_loop n (page_addr F) (hw_blk T) 1 s"
proof -
  assume n: "n < 2 ^ 39" and F: "F mod 2048 = 0" and T: "T mod 2048 = 0"
  from F have "F = 2048 * (F div 2048)" by auto
  then have a: "page_addr F AND MASK VADDR_L2_OFFSET_BITS = 0"
    using page_addr_aligned_l2 [of "F div 2048"] by simp
  show ?thesis
    using n by (simp add: hv_pt_map_l2_def a page_addr_aligned_l2 hw_blk_l2_assert [OF T]
        rounds_l2 hw_blk_block)
qed

lemma seg_head_l4:
  "min (page_addr N) (ALIGN_UP (page_addr F) (MASK VADDR_L3_OFFSET_BITS) - page_addr F) = 0"
  by (simp add: ALIGN_UP_l3 min_def)

lemma head_n_le: "head_n F N \<le> N"
  by (simp add: head_n_def)

lemma seg_head_chunk:
  assumes "F + N \<le> 2 ^ 22"
  shows "ALIGN_DOWN (min (page_addr N)
           (ALIGN_UP (page_addr F) (MASK VADDR_L2_OFFSET_BITS) - page_addr F))
           (MASK VADDR_L3_OFFSET_BITS) = page_addr (head_n F N)"
proof -
  define U where "U = 2048 * ((F + 2047) div 2048)"
  have U: "F \<le> U" "U < 2 ^ 50" using assms by (simp_all add: U_def)
  have "ALIGN_UP (page_addr F) (MASK VADDR_L2_OFFSET_BITS) = page_addr U"
    unfolding U_def using assms by (intro ALIGN_UP_l2) simp
  then have "ALIGN_UP (page_addr F) (MASK VADDR_L2_OFFSET_BITS) - page_addr F = page_addr (U - F)"
    using U(1) by (simp add: page_addr_diff)
  moreover have "min (page_addr N) (page_addr (U - F)) = page_addr (min N (U - F))"
    using assms U(2) by (intro page_addr_min) simp_all
  ultimately show ?thesis
    by (simp add: ALIGN_DOWN_l3 head_n_def U_def)
qed

lemma map_chunk_hw:
  assumes "c \<le> N"
  shows "map_chunk f (page_addr c) 1 (page_addr F) (hw_blk T) (page_addr N) s
         = bind_res (f (page_addr F) (hw_blk T) (page_addr c) 1 s)
             (\<lambda>s'. Inr (page_addr (F + c), hw_blk (T + c), page_addr (N - c), s'))"
  using assms by (simp add: map_chunk_def page_addr_add hw_blk_add page_addr_diff)

lemma seg_l3:
  assumes "c \<le> N" "c < 2 ^ 50"
  shows "(if page_addr c \<noteq> 0
          then map_chunk hv_pt_map_l3 (page_addr c) 1 (page_addr F) (hw_blk T) (page_addr N) s
          else Inr (page_addr F, hw_blk T, page_addr N, s))
         = bind_res (map_l3_loop c (page_addr F) (hw_page T) 1 s)
             (\<lambda>s'. Inr (page_addr (F + c), hw_blk (T + c), page_addr (N - c), s'))"
proof (cases "c = 0")
  case True
  then show ?thesis by simp
next
  case False
  then have "page_addr c \<noteq> 0" using assms(2) by (simp add: page_addr_eq_0)
  then show ?thesis
    by (simp add: map_chunk_hw [OF assms(1)] hv_pt_map_l3_hw [OF assms(2)])
qed

lemma seg_l2:
  assumes N: "N < 2 ^ 50" and al: "N div 2048 \<noteq> 0 \<longrightarrow> F mod 2048 = 0"
  shows "(if page_addr (2048 * (N div 2048)) \<noteq> 0 \<and> hw_blk T AND VADDR_L2_ALIGN_MASK = 0
          then map_chunk hv_pt_map_l2 (page_addr (2048 * (N div 2048))) 1
                 (page_addr F) (hw_blk T) (page_addr N) s
          else Inr (page_addr F, hw_blk T, page_addr N, s))
         = bind_res (map_l2_loop (body_n T N) (page_addr F) (hw_blk T) 1 s)
             (\<lambda>s'. Inr (page_addr (F + 2048 * body_n T N), hw_blk (T + 2048 * body_n T N),
                        page_addr (N - 2048 * body_n T N), s'))"
proof (cases "N div 2048 \<noteq> 0 \<and> T mod 2048 = 0")
  case True
  then have F: "F mod 2048 = 0" and T: "T mod 2048 = 0" using al by simp_all
  have c: "2048 * (N div 2048) \<le> N" by simp
  have n: "N div 2048 < 2 ^ 39" using N by simp
  have nz: "page_addr (2048 * (N div 2048)) \<noteq> 0"
    using True N by (simp add: page_addr_eq_0)
  show ?thesis
    using nz T
    by (simp add: hw_blk_l2_aligned map_chunk_hw [OF c] hv_pt_map_l2_hw [OF n F T] body_n_def)
next
  case False
  then have "body_n T N = 0" by (auto simp: body_n_def)
  moreover have "\<not> (page_addr (2048 * (N div 2048)) \<noteq> 0 \<and> hw_blk T AND VADDR_L2_ALIGN_MASK = 0)"
    using False by (auto simp: hw_blk_l2_aligned)
  ultimately show ?thesis by auto
qed

lemma hv_map_hw_segments:
  fixes F N T :: nat
  assumes FN: "F + N \<le> 2 ^ 22"
  shows "hv_map (page_addr F) (hw_blk T) (page_addr N) 1 s
         = bind_res (map_l3_loop (head_n F N) (page_addr F) (hw_page T) 1 s) (\<lambda>s1.
           bind_res (map_l2_loop (body_n (T + head_n F N) (N - head_n F N))
                       (page_addr (F + head_n F N)) (hw_blk (T + head_n F N)) 1 s1) (\<lambda>s2.
           bind_res (map_l3_loop
                       (N - head_n F N - 2048 * body_n (T + head_n F N) (N - head_n F N))
                       (page_addr (F + head_n F N
                          + 2048 * body_n (T + head_n F N) (N - head_n F N)))
                       (hw_page (T + head_n F N
                          + 2048 * body_n (T + head_n F N) (N - head_n F N))) 1 s2) (\<lambda>s3.
           Inr (0, s3))))"
proof -
  define n1 where "n1 = head_n F N"
  define n2 where "n2 = body_n (T + n1) (N - n1)"
  define n3 where "n3 = N - n1 - 2048 * n2"
  have n1: "n1 \<le> N" "n1 < 2 ^ 50"
    using FN head_n_le [of F N] by (simp_all add: n1_def)
  have N1: "N - n1 < 2 ^ 50" using FN by simp
  have al: "(N - n1) div 2048 \<noteq> 0 \<longrightarrow> (F + n1) mod 2048 = 0"
  proof
    assume "(N - n1) div 2048 \<noteq> 0"
    then have "n1 < N" by (cases "n1 < N") auto
    then have "n1 = 2048 * ((F + 2047) div 2048) - F"
      by (simp add: n1_def head_n_def min_def split: if_splits)
    moreover have "F \<le> 2048 * ((F + 2047) div 2048)" by simp
    ultimately have "F + n1 = 2048 * ((F + 2047) div 2048)" by simp
    then show "(F + n1) mod 2048 = 0" by simp
  qed
  have n3: "n3 \<le> N - n1 - 2048 * n2" "n3 < 2 ^ 50"
    using FN by (simp_all add: n3_def)
  have e2: "(if ALIGN_DOWN (min (page_addr N)
                 (ALIGN_UP (page_addr F) (MASK VADDR_L2_OFFSET_BITS) - page_addr F))
                 (MASK VADDR_L3_OFFSET_BITS) \<noteq> 0
             then map_chunk hv_pt_map_l3
                 (ALIGN_DOWN (min (page_addr N)
                    (ALIGN_UP (page_addr F) (MASK VADDR_L2_OFFSET_BITS) - page_addr F))
                    (MASK VADDR_L3_OFFSET_BITS))
                 1 (page_addr F) (hw_blk T) (page_addr N) s
             else Inr (page_addr F, hw_blk T, page_addr N, s))
            = bind_res (map_l3_loop n1 (page_addr F) (hw_page T) 1 s)
                (\<lambda>s'. Inr (page_addr (F + n1), hw_blk (T + n1), page_addr (N - n1), s'))"
    unfolding seg_head_chunk [OF FN] n1_def [symmetric] by (rule seg_l3 [OF n1])
  have e3: "(if ALIGN_DOWN (page_addr (N - n1)) (MASK VADDR_L2_OFFSET_BITS) \<noteq> 0 \<and>
                hw_blk (T + n1) AND VADDR_L2_ALIGN_MASK = 0
             then map_chunk hv_pt_map_l2
                 (ALIGN_DOWN (page_addr (N - n1)) (MASK VADDR_L2_OFFSET_BITS))
                 1 (page_addr (F + n1)) (hw_blk (T + n1)) (page_addr (N - n1)) u
             else Inr (page_addr (F + n1), hw_blk (T + n1), page_addr (N - n1), u))
            = bind_res (map_l2_loop n2 (page_addr (F + n1)) (hw_blk (T + n1)) 1 u)
                (\<lambda>s'. Inr (page_addr (F + n1 + 2048 * n2), hw_blk (T + n1 + 2048 * n2),
                           page_addr (N - n1 - 2048 * n2), s'))" for u
    unfolding ALIGN_DOWN_l2 [OF N1] n2_def
    using seg_l2 [OF N1 al, of "T + n1" u] by simp
  have r3: "page_addr (N - n1 - 2048 * n2) = page_addr n3"
    by (simp only: n3_def)
  have e4: "(if ALIGN_DOWN (page_addr n3) (MASK VADDR_L3_OFFSET_BITS) \<noteq> 0
             then map_chunk hv_pt_map_l3
                 (ALIGN_DOWN (page_addr n3) (MASK VADDR_L3_OFFSET_BITS))
                 1 (page_addr (F + n1 + 2048 * n2)) (hw_blk (T + n1 + 2048 * n2))
                 (page_addr n3) u
             else Inr (page_addr (F + n1 + 2048 * n2), hw_blk (T + n1 + 2048 * n2),
                       page_addr n3, u))
            = bind_res (map_l3_loop n3 (page_addr (F + n1 + 2048 * n2))
                         (hw_page (T + n1 + 2048 * n2)) 1 u)
                (\<lambda>s'. Inr (page_addr (F + n1 + 2048 * n2 + n3),
                           hw_blk (T + n1 + 2048 * n2 + n3), 0, s'))" for u
    unfolding ALIGN_DOWN_l3
    using seg_l3 [OF order_refl n3(2), of "F + n1 + 2048 * n2" "T + n1 + 2048 * n2" u]
    by simp
  have "hv_map (page_addr F) (hw_blk T) (page_addr N) 1 s
         = bind_res (map_l3_loop n1 (page_addr F) (hw_page T) 1 s) (\<lambda>s1.
           bind_res (map_l2_loop n2 (page_addr (F + n1)) (hw_blk (T + n1)) 1 s1) (\<lambda>s2.
           bind_res (map_l3_loop n3 (page_addr (F + n1 + 2048 * n2))
                       (hw_page (T + n1 + 2048 * n2)) 1 s2) (\<lambda>s3.
           Inr (0, s3))))"
    unfolding hv_map_def Let_def
    by (simp only: IS_HW_hw_blk [THEN eqTrueI] page_addr_aligned_l4 page_addr_aligned_l3
        seg_head_l4 e2 e3 r3 e4 bind_res_simps bind_res_assoc prod.case simp_thms if_True if_False)
  then show ?thesis unfolding n3_def n2_def n1_def .
qed

lemma l2_post_inv:
  assumes "pt_inv s" and "l2_post s s' I R n"
  shows "pt_inv s'"
proof -
  have e: "hv_L2 s' i = hv_L2 s i" if "bit (hv_L2 s' i) (Suc 0)" for i
    using assms(2) that by (auto simp: l2_post_def hw_blk_bit_Suc split: if_splits)
  have h: "heap s' = heap s" "brk s' = brk s"
    using assms(2) by (simp_all add: l2_post_def)
  show ?thesis
    unfolding pt_inv_def
  proof (intro conjI allI impI)
    fix i assume i: "i < 2048" "bit (hv_L2 s' i) 1"
    then have b: "bit (hv_L2 s' i) (Suc 0)" by simp
    with e [OF b] have "bit (hv_L2 s i) (Suc 0)" by simp
    from pt_inv_tbl [OF assms(1) i(1) this] show "tbl_ok s' (hv_L2 s' i)"
      by (simp add: tbl_ok_def h e [OF b])
  next
    fix i j assume a: "i < 2048" "j < 2048" "bit (hv_L2 s' i) 1" "bit (hv_L2 s' j) 1" "i \<noteq> j"
    then have b: "bit (hv_L2 s' i) (Suc 0)" "bit (hv_L2 s' j) (Suc 0)" by simp_all
    from b e have "bit (hv_L2 s i) (Suc 0)" "bit (hv_L2 s j) (Suc 0)" by simp_all
    from pt_inv_distinct [OF assms(1) a(1) a(2) this a(5)]
    show "hv_L2 s' i AND PTE_TARGET_MASK \<noteq> hv_L2 s' j AND PTE_TARGET_MASK"
      by (simp add: e [OF b(1)] e [OF b(2)])
  qed
qed

lemma l2_post_pres:
  assumes "l2_post s s' I R n" and "pg div 2048 < I \<or> I + n \<le> pg div 2048"
    and "page_ok s pg tq"
  shows "page_ok s' pg tq"
proof -
  have e: "hv_L2 s' (pg div 2048) = hv_L2 s (pg div 2048)"
    using assms(1,2) by (auto simp: l2_post_def)
  have h: "heap s' = heap s" using assms(1) by (simp add: l2_post_def)
  show ?thesis using assms(3) unfolding page_ok_def e h .
qed

lemma l2_post_ok:
  assumes "l2_post s s' I R n" and "j < 2048 * n"
  shows "page_ok s' (2048 * I + j) (2048 * R + j)"
proof -
  have d: "(2048 * I + j) div 2048 = I + j div 2048" by simp
  have m: "(2048 * I + j) mod 2048 = j mod 2048" by simp
  have "j div 2048 < n" using assms(2) by (simp add: div_less_iff_less_mult)
  then have e: "hv_L2 s' (I + j div 2048) = hw_blk (2048 * (R + j div 2048))"
    using assms(1) by (simp add: l2_post_def)
  have a: "2048 * R + j = 2048 * (R + j div 2048) + j mod 2048"
    by (simp add: distrib_left)
  have nb: "\<not> bit (hv_L2 s' (I + j div 2048)) (Suc 0)"
    by (simp only: e hw_blk_bit_Suc not_False_eq_True)
  have ex: "\<exists>r. hv_L2 s' (I + j div 2048) = hw_blk (2048 * r)
              \<and> 2048 * R + j = 2048 * r + j mod 2048"
    using e a by blast
  show ?thesis
    unfolding page_ok_def d m Let_def using nb ex by simp
qed

lemma l2_post_noblk:
  assumes "l2_post s s' I R n" and "noblk s lo"
  shows "noblk s' (max lo (I + n))"
  using assms by (auto simp: noblk_def l2_post_def)

lemma noblk_mono: "noblk s lo \<Longrightarrow> lo \<le> hi \<Longrightarrow> noblk s hi"
  by (simp add: noblk_def)

lemma loop_post_noblk:
  assumes "loop_post s s' F T n" and "noblk s lo"
  shows "noblk s' lo"
  unfolding noblk_def
proof (intro allI impI)
  fix i assume "lo \<le> i"
  with assms(2) have "hv_L2 s i = 0 \<or> bit (hv_L2 s i) (Suc 0)" by (simp add: noblk_def)
  moreover from assms(1) have "hv_L2 s' i = hv_L2 s i \<or> bit (hv_L2 s' i) (Suc 0)"
    by (simp add: loop_post_def)
  ultimately show "hv_L2 s' i = 0 \<or> bit (hv_L2 s' i) (Suc 0)" by auto
qed

lemma pt_inv_init: "\<forall>i. hv_L2 s i = 0 \<Longrightarrow> pt_inv s"
  by (simp add: pt_inv_def)

lemma noblk_init: "\<forall>i. hv_L2 s i = 0 \<Longrightarrow> noblk s lo"
  by (simp add: noblk_def)

lemma hv_map_hw_pages:
  fixes F N T :: nat
  assumes FN: "F + N \<le> 2 ^ 22" and TN: "T + N \<le> 2 ^ 36"
    and bk: "unat (brk s) \<le> 2 ^ 49" and init: "\<forall>i. hv_L2 s i = 0"
  shows "\<exists>s'. hv_map (page_addr F) (hw_blk T) (page_addr N) 1 s = Inr (0, s')
           \<and> (\<forall>k<N. page_ok s' (F + k) (T + k))"
proof -
  define n1 where "n1 = head_n F N"
  define n2 where "n2 = body_n (T + n1) (N - n1)"
  define n3 where "n3 = N - n1 - 2048 * n2"
  define F2 where "F2 = F + n1"
  define T2 where "T2 = T + n1"
  define F3 where "F3 = F2 + 2048 * n2"
  define T3 where "T3 = T2 + 2048 * n2"
  have n1: "n1 \<le> N" by (simp add: n1_def head_n_le)
  have n2: "2048 * n2 \<le> N - n1" by (simp add: n2_def body_n_def)
  have tot: "n1 + 2048 * n2 + n3 = N" using n1 n2 by (simp add: n3_def)
  have seg: "hv_map (page_addr F) (hw_blk T) (page_addr N) 1 s
         = bind_res (map_l3_loop n1 (page_addr F) (hw_page T) 1 s) (\<lambda>s1.
           bind_res (map_l2_loop n2 (page_addr F2) (hw_blk T2) 1 s1) (\<lambda>s2.
           bind_res (map_l3_loop n3 (page_addr F3) (hw_page T3) 1 s2) (\<lambda>s3.
           Inr (0, s3))))"
    unfolding n1_def n2_def n3_def F2_def T2_def F3_def T3_def
    by (rule hv_map_hw_segments [OF FN])
  have b1: "unat (brk s) + 2 ^ 15 * n1 \<le> 2 ^ 50"
    using bk n1 FN by simp
  have r1: "F + n1 \<le> 2 ^ 22" using FN n1 by simp
  from map_l3_loop_post [OF pt_inv_init [OF init] r1 noblk_init [OF init] b1, of T]
  obtain s1 where s1: "map_l3_loop n1 (page_addr F) (hw_page T) 1 s = Inr s1"
    "loop_post s s1 F T n1"
    by blast
  have inv1: "pt_inv s1" and bk1: "unat (brk s1) \<le> unat (brk s) + 2 ^ 15 * n1"
    and ok1: "\<forall>k<n1. page_ok s1 (F + k) (T + k)"
    and same1: "\<forall>i. (\<forall>k<n1. (F + k) div 2048 \<noteq> i) \<longrightarrow> hv_L2 s1 i = hv_L2 s i"
    using s1(2) by (simp_all add: loop_post_def)
  have nb1: "noblk s1 lo" for lo
    by (rule loop_post_noblk [OF s1(2) noblk_init [OF init]])
  have "\<exists>s2. map_l2_loop n2 (page_addr F2) (hw_blk T2) 1 s1 = Inr s2
          \<and> pt_inv s2 \<and> brk s2 = brk s1 \<and> noblk s2 (F3 div 2048)
          \<and> (\<forall>k<n1 + 2048 * n2. page_ok s2 (F + k) (T + k))"
  proof (cases "n2 = 0")
    case True
    then show ?thesis using inv1 nb1 ok1 by simp
  next
    case False
    then have t2: "T2 mod 2048 = 0" and nd: "n2 = (N - n1) div 2048"
      by (simp_all add: n2_def body_n_def T2_def split: if_splits)
    from False nd have lt: "n1 < N" by (cases "n1 < N") auto
    then have "n1 = 2048 * ((F + 2047) div 2048) - F"
      by (simp add: n1_def head_n_def min_def split: if_splits)
    moreover have "F \<le> 2048 * ((F + 2047) div 2048)" by simp
    ultimately have F2e: "F2 = 2048 * ((F + 2047) div 2048)" by (simp add: F2_def)
    define I where "I = F2 div 2048"
    define R where "R = T2 div 2048"
    have FI: "F2 = 2048 * I" using F2e by (simp add: I_def)
    have TR: "T2 = 2048 * R" using t2 by (auto simp: R_def)
    have "2048 * I + 2048 * n2 \<le> 2 ^ 22"
      using FN n2 n1 by (simp add: FI [symmetric] F2_def)
    then have In: "I + n2 \<le> 2048" by simp
    have z: "\<forall>i. I \<le> i \<and> i < I + n2 \<longrightarrow> \<not> bit (hv_L2 s1 i) (Suc 0)"
    proof (intro allI impI)
      fix i assume i: "I \<le> i \<and> i < I + n2"
      have "\<forall>k<n1. (F + k) div 2048 \<noteq> i"
      proof (intro allI impI)
        fix k assume "k < n1"
        then have "F + k < 2048 * I" by (simp add: FI [symmetric] F2_def)
        then have "(F + k) div 2048 < I" by (simp add: div_less_iff_less_mult)
        with i show "(F + k) div 2048 \<noteq> i" by simp
      qed
      with same1 init show "\<not> bit (hv_L2 s1 i) (Suc 0)" by simp
    qed
    from map_l2_loop_post [OF In z, of R] obtain s2 where
      s2: "map_l2_loop n2 (page_addr (2048 * I)) (hw_blk (2048 * R)) 1 s1 = Inr s2"
      "l2_post s1 s2 I R n2"
      by blast
    have inv2: "pt_inv s2" by (rule l2_post_inv [OF inv1 s2(2)])
    have bk2: "brk s2 = brk s1" using s2(2) by (simp add: l2_post_def)
    have "F3 div 2048 = I + n2" by (simp add: F3_def FI)
    then have nb2: "noblk s2 (F3 div 2048)"
      using l2_post_noblk [OF s2(2) nb1 [of 0]] by simp
    have ok2: "page_ok s2 (F + k) (T + k)" if k: "k < n1 + 2048 * n2" for k
    proof (cases "k < n1")
      case True
      then have "F + k < 2048 * I" by (simp add: FI [symmetric] F2_def)
      then have "(F + k) div 2048 < I" by (simp add: div_less_iff_less_mult)
      then show ?thesis
        using ok1 True by (intro l2_post_pres [OF s2(2)]) simp_all
    next
      case False
      define j where "j = k - n1"
      have j: "j < 2048 * n2" "k = n1 + j" using False k by (simp_all add: j_def)
      have "F + k = 2048 * I + j" "T + k = 2048 * R + j"
        using j(2) by (simp_all add: FI [symmetric] TR [symmetric] F2_def T2_def)
      with l2_post_ok [OF s2(2) j(1)] show ?thesis by simp
    qed
    show ?thesis
      using s2(1) inv2 bk2 nb2 ok2 by (auto simp: FI TR)
  qed
  then obtain s2 where s2: "map_l2_loop n2 (page_addr F2) (hw_blk T2) 1 s1 = Inr s2"
    and inv2: "pt_inv s2" and bk2: "brk s2 = brk s1" and nb2: "noblk s2 (F3 div 2048)"
    and ok2: "\<forall>k<n1 + 2048 * n2. page_ok s2 (F + k) (T + k)"
    by blast
  have b3: "unat (brk s2) + 2 ^ 15 * n3 \<le> 2 ^ 50"
    using bk bk1 bk2 tot FN by simp
  have r3: "F3 + n3 \<le> 2 ^ 22"
    using FN tot by (simp add: F3_def F2_def)
  from map_l3_loop_post [OF inv2 r3 nb2 b3, of T3]
  obtain s3 where s3: "map_l3_loop n3 (page_addr F3) (hw_page T3) 1 s2 = Inr s3"
    "loop_post s2 s3 F3 T3 n3"
    by blast
  have ok3: "\<forall>k<n3. page_ok s3 (F3 + k) (T3 + k)"
    and pres3: "\<forall>pg tq. pg < 2 ^ 22 \<longrightarrow> pg < F3 \<or> F3 + n3 \<le> pg \<longrightarrow> page_ok s2 pg tq
                  \<longrightarrow> page_ok s3 pg tq"
    using s3(2) by (simp_all add: loop_post_def)
  have run: "hv_map (page_addr F) (hw_blk T) (page_addr N) 1 s = Inr (0, s3)"
    by (simp add: seg s1(1) s2 s3(1))
  have "page_ok s3 (F + k) (T + k)" if k: "k < N" for k
  proof (cases "k < n1 + 2048 * n2")
    case True
    with ok2 have "page_ok s2 (F + k) (T + k)" by simp
    moreover have "F + k < 2 ^ 22" using FN k by simp
    moreover have "F + k < F3" using True by (simp add: F3_def F2_def)
    ultimately show ?thesis using pres3 by blast
  next
    case False
    define j where "j = k - (n1 + 2048 * n2)"
    have j: "j < n3" "k = n1 + 2048 * n2 + j" using False k tot by (simp_all add: j_def)
    have "F + k = F3 + j" "T + k = T3 + j"
      using j(2) by (simp_all add: F3_def F2_def T3_def T2_def)
    with ok3 j(1) show ?thesis by simp
  qed
  with run show ?thesis by blast
qed

lemma aligned_unat:
  assumes "x AND MASK VADDR_L3_OFFSET_BITS = 0"
  shows "unat x = 16384 * (unat x div 16384)"
proof -
  from assms have "unat x mod 16384 = 0"
    by (simp add: aligned_iff VADDR_L3_OFFSET_BITS_def)
  then show ?thesis by auto
qed

lemma hv_pt_init_simps:
  "hv_L2 (hv_pt_init s) i = 0" "brk (hv_pt_init s) = brk s"
  by (simp_all add: hv_pt_init_def)

text \<open>
  C1, as the code has it. After \<open>hv_pt_init\<close>, \<open>hv_map_hw from to sz\<close> with \<open>from\<close>, \<open>to\<close> and
  \<open>sz\<close> multiples of 16 KiB succeeds (returns 0) whenever the IPA range ends within the
  36-bit IPA space, the target range ends within the 50 bits of the target field, and the
  allocator hands out table addresses below \<open>2 ^ 49\<close>. Then the walk of every IPA of
  \<open>[from, from + sz)\<close> yields a PTE with the valid bit set whose target field is the base of
  the target page: \<open>to\<close> plus the offset \<open>ipa - from\<close> rounded down to 16 KiB.
\<close>

theorem hv_map_hw_walk_page:
  assumes af: "from AND MASK VADDR_L3_OFFSET_BITS = 0"
    and at: "to AND MASK VADDR_L3_OFFSET_BITS = 0"
    and az: "sz AND MASK VADDR_L3_OFFSET_BITS = 0"
    and rf: "unat from + unat sz \<le> 2 ^ 36"
    and rt: "unat to + unat sz \<le> 2 ^ 50"
    and bk: "unat (brk s) \<le> 2 ^ 49"
    and lo: "unat from \<le> unat ipa"
    and hi: "unat ipa < unat from + unat sz"
  shows "\<exists>s' pte. hv_map_hw from to sz (hv_pt_init s) = Inr (0, s')
           \<and> hv_pt_walk ipa s' = Inr pte
           \<and> pte AND PTE_VALID = PTE_VALID
           \<and> pte AND PTE_TARGET_MASK
               = to + ((ipa - from) AND NOT (MASK VADDR_L3_OFFSET_BITS))"
proof -
  define F where "F = unat from div 16384"
  define T where "T = unat to div 16384"
  define N where "N = unat sz div 16384"
  define pg where "pg = unat ipa div 16384"
  define k where "k = pg - F"
  have uf: "unat from = 16384 * F" unfolding F_def by (rule aligned_unat [OF af])
  have ut: "unat to = 16384 * T" unfolding T_def by (rule aligned_unat [OF at])
  have uz: "unat sz = 16384 * N" unfolding N_def by (rule aligned_unat [OF az])
  have pf: "from = page_addr F" unfolding F_def by (rule aligned_page_addr [OF af])
  have pt: "to = page_addr T" unfolding T_def by (rule aligned_page_addr [OF at])
  have pz: "sz = page_addr N" unfolding N_def by (rule aligned_page_addr [OF az])
  have FN: "F + N \<le> 2 ^ 22" using rf by (simp add: uf uz)
  have TN: "T + N \<le> 2 ^ 36" using rt by (simp add: ut uz)
  have bk': "unat (brk (hv_pt_init s)) \<le> 2 ^ 49" using bk by (simp add: hv_pt_init_simps)
  have init: "\<forall>i. hv_L2 (hv_pt_init s) i = 0" by (simp add: hv_pt_init_simps)
  from hv_map_hw_pages [OF FN TN bk' init] obtain s' where
    run: "hv_map (page_addr F) (hw_blk T) (page_addr N) 1 (hv_pt_init s) = Inr (0, s')"
    and ok: "\<forall>k<N. page_ok s' (F + k) (T + k)"
    by blast
  have run': "hv_map_hw from to sz (hv_pt_init s) = Inr (0, s')"
    using run by (simp add: hv_map_hw_def pf pt pz map_hw_target)
  have Fpg: "F \<le> pg" using lo unfolding pg_def uf by simp
  have pgN: "pg < F + N" using hi unfolding pg_def uf uz by (simp add: div_less_iff_less_mult)
  have kN: "k < N" and pgk: "pg = F + k" using Fpg pgN by (simp_all add: k_def)
  from ok kN have ok': "page_ok s' pg (T + k)" by (simp add: pgk)
  have pb: "pg < 2 ^ 22" using pgN FN by simp
  have tb: "T + k < 2 ^ 36" using kN TN by simp
  from walk_page_ok [OF ok' pb tb pg_def [symmetric]] obtain pte where
    w: "hv_pt_walk ipa s' = Inr pte" "pte AND PTE_VALID = PTE_VALID"
    "pte AND PTE_TARGET_MASK = page_addr (T + k)"
    by blast
  have "from \<le> ipa" using lo by (simp add: word_le_nat_alt)
  then have "unat (ipa - from) = unat ipa - 16384 * F"
    by (simp add: unat_sub uf)
  then have "unat (ipa - from) div 16384 = k"
    by (simp add: k_def pg_def)
  then have "(ipa - from) AND NOT (MASK VADDR_L3_OFFSET_BITS) = page_addr k"
    by (simp add: MASK_eq_mask VADDR_L3_OFFSET_BITS_def round_down_page)
  then have "to + ((ipa - from) AND NOT (MASK VADDR_L3_OFFSET_BITS)) = page_addr (T + k)"
    by (simp add: pt page_addr_add)
  with run' w show ?thesis by simp
qed

theorem hv_map_hw_walk_page_witness:
  "(0x100000 :: u64) AND MASK VADDR_L3_OFFSET_BITS = 0
   \<and> (0x4000 :: u64) AND MASK VADDR_L3_OFFSET_BITS = 0
   \<and> unat (0x100000 :: u64) + unat (0x4000 :: u64) \<le> 2 ^ 36
   \<and> unat (brk example_pt) \<le> 2 ^ 49
   \<and> unat (0x100000 :: u64) \<le> unat (0x100010 :: u64)
   \<and> unat (0x100010 :: u64) < unat (0x100000 :: u64) + unat (0x4000 :: u64)
   \<and> (\<exists>s' pte. hv_map_hw 0x100000 0x100000 0x4000 (hv_pt_init example_pt) = Inr (0, s')
           \<and> hv_pt_walk 0x100010 s' = Inr pte
           \<and> pte AND PTE_VALID = PTE_VALID
           \<and> pte AND PTE_TARGET_MASK
               = 0x100000 + ((0x100010 - 0x100000) AND NOT (MASK VADDR_L3_OFFSET_BITS)))"
proof -
  have a: "(0x100000 :: u64) AND MASK VADDR_L3_OFFSET_BITS = 0"
    "(0x4000 :: u64) AND MASK VADDR_L3_OFFSET_BITS = 0"
    by (simp_all add: MASK_def BIT_eq VADDR_L3_OFFSET_BITS_def)
  have b: "unat (brk example_pt) \<le> 2 ^ 49"
    by (simp add: example_pt_def hv_pt_init_def)
  have c: "unat (0x100000 :: u64) + unat (0x4000 :: u64) \<le> 2 ^ 36"
    "unat (0x100000 :: u64) + unat (0x4000 :: u64) \<le> 2 ^ 50"
    "unat (0x100000 :: u64) \<le> unat (0x100010 :: u64)"
    "unat (0x100010 :: u64) < unat (0x100000 :: u64) + unat (0x4000 :: u64)"
    by simp_all
  show ?thesis
    using hv_map_hw_walk_page [OF a(1) a(1) a(2) c(1) c(2) b c(3) c(4)] a b c by blast
qed

text \<open>
  The claim's equation \<open>walk(ipa) & TARGET_MASK = to + (ipa - from)\<close> fails at every IPA
  that is not page-aligned: the target field has no bits below bit 14. After mapping one
  page at \<open>0x100000\<close> onto itself, the walk of \<open>0x100010\<close> yields \<open>0x100013\<close>, whose target
  field is \<open>0x100000\<close>, not \<open>0x100010\<close>.
\<close>

theorem hv_map_hw_walk_counterexample:
  "bind_res (hv_map_hw 0x100000 0x100000 0x4000 example_pt) (\<lambda>(r, s). hv_pt_walk 0x100010 s)
     = Inr 0x100013
   \<and> (0x100013 :: u64) AND PTE_TARGET_MASK \<noteq> 0x100000 + (0x100010 - 0x100000)"
  by code_simp

section \<open>Instruction emulation\<close>

text \<open>
  \<open>EXT(n, b)\<close> sign-extends the low \<open>b\<close> bits of the 32-bit value \<open>n\<close>: a left shift by
  \<open>32 - b\<close> on \<open>u32\<close>, a reinterpretation as \<open>s32\<close> and an arithmetic right shift by the
  same amount; the \<open>s32\<close> result is then widened to the 64-bit destination. The shifts are
  defined only for \<open>0 < b \<le> 32\<close>.
\<close>

definition EXT_defined :: "nat \<Rightarrow> bool" where
  "EXT_defined b \<longleftrightarrow> 0 < b \<and> b \<le> 32"

definition EXT :: "u32 \<Rightarrow> nat \<Rightarrow> u64" where
  "EXT n b = scast (signed_drop_bit (32 - b) (push_bit (32 - b) n))"

type_synonym regs = "nat \<Rightarrow> u64"

text \<open>
  The fields both emulators read from the instruction word: \<open>Rt = insn & 0x1f\<close>,
  \<open>Rn = (insn >> 5) & 0x1f\<close>, \<open>imm9 = EXT((insn >> 12) & 0x1ff, 9)\<close> and
  \<open>*width = insn >> 30\<close>.
\<close>

definition insn_Rt :: "u32 \<Rightarrow> nat" where
  "insn_Rt insn = unat (insn AND 0x1f)"

definition insn_Rn :: "u32 \<Rightarrow> nat" where
  "insn_Rn insn = unat (drop_bit 5 insn AND 0x1f)"

definition insn_imm9 :: "u32 \<Rightarrow> u64" where
  "insn_imm9 insn = EXT (drop_bit 12 insn AND 0x1ff) 9"

definition insn_width :: "u32 \<Rightarrow> u64" where
  "insn_width insn = ucast (drop_bit 30 insn)"

text \<open>\<open>CHECK_RT; regs[Rt] = *val;\<close> and \<open>CHECK_RT; regs[Rt] = EXT(*val, 8 << *width);\<close>\<close>

definition commit_rt :: "regs \<Rightarrow> nat \<Rightarrow> u64 \<Rightarrow> u64 \<Rightarrow> fault + (bool \<times> regs \<times> u64)" where
  "commit_rt regs Rt v width =
     (if Rt = 31 then Inr (True, regs, width) else Inr (True, regs(Rt := v), width))"

definition commit_rt_signed :: "regs \<Rightarrow> nat \<Rightarrow> u64 \<Rightarrow> u64 \<Rightarrow> fault + (bool \<times> regs \<times> u64)" where
  "commit_rt_signed regs Rt v width =
     (if Rt = 31 then Inr (True, regs, width)
      else if \<not> EXT_defined (8 * 2 ^ unat width) then Inl Undefined_shift
      else Inr (True, regs(Rt := EXT (ucast v) (8 * 2 ^ unat width)), width))"

text \<open>
  \<open>emulate_load(regs, insn, val, width)\<close>: \<open>val\<close> is \<open>None\<close> for the null pointer of the
  first pass. The result is the returned flag, the register file and \<open>*width\<close>.
\<close>

definition emulate_load :: "regs \<Rightarrow> u32 \<Rightarrow> u64 option \<Rightarrow> fault + (bool \<times> regs \<times> u64)" where
  "emulate_load regs insn val =
     (let Rt = insn_Rt insn;
          Rn = insn_Rn insn;
          imm9 = insn_imm9 insn;
          width = insn_width insn
      in
      if insn AND 0x3fe00400 = 0x38400400 then
        (if Rn = 31 then Inr (False, regs, width)
         else case val of
           None \<Rightarrow> Inr (True, regs, width)
         | Some v \<Rightarrow> commit_rt (regs(Rn := regs Rn + imm9)) Rt v width)
      else if insn AND 0x3fc00000 = 0x39400000 then
        (case val of
           None \<Rightarrow> Inr (True, regs, width)
         | Some v \<Rightarrow> commit_rt regs Rt v width)
      else if insn AND 0x3fa00400 = 0x38800400 then
        (if Rn = 31 then Inr (False, regs, width)
         else case val of
           None \<Rightarrow> Inr (True, regs, width)
         | Some v \<Rightarrow> commit_rt_signed (regs(Rn := regs Rn + imm9)) Rt v width)
      else if insn AND 0x3fa00000 = 0x39800000 then
        (case val of
           None \<Rightarrow> Inr (True, regs, width)
         | Some v \<Rightarrow> commit_rt_signed regs Rt v width)
      else if insn AND 0x3fe04c00 = 0x38604800 then
        (case val of
           None \<Rightarrow> Inr (True, regs, width)
         | Some v \<Rightarrow> commit_rt regs Rt v width)
      else if insn AND 0x3fa04c00 = 0x38a04800 then
        (case val of
           None \<Rightarrow> Inr (True, regs, width)
         | Some v \<Rightarrow> commit_rt_signed regs Rt v width)
      else Inr (False, regs, width))"

text \<open>
  \<open>emulate_store(regs, insn, val, width)\<close>: the result is the returned flag, the register
  file, \<open>*val\<close> (which the caller initialised to \<open>val\<close>) and \<open>*width\<close>.
\<close>

definition emulate_store :: "regs \<Rightarrow> u32 \<Rightarrow> u64 \<Rightarrow> bool \<times> regs \<times> u64 \<times> u64" where
  "emulate_store regs insn val =
     (let Rt = insn_Rt insn;
          Rn = insn_Rn insn;
          imm9 = insn_imm9 insn;
          width = insn_width insn
      in
      if insn AND 0x3fe00400 = 0x38000400 then
        (if Rn = 31 then (False, regs, val, width)
         else let regs1 = regs(Rn := regs Rn + imm9) in
           if Rt = 31 then (True, regs1, val, width) else (True, regs1, regs1 Rt, width))
      else if insn AND 0x3fc00000 = 0x39000000 then
        (if Rt = 31 then (True, regs, val, width) else (True, regs, regs Rt, width))
      else if insn AND 0x3fe04c00 = 0x38204800 then
        (if Rt = 31 then (True, regs, val, width) else (True, regs, regs Rt, width))
      else (False, regs, val, width))"

section \<open>Instruction emulation: properties\<close>

definition example_regs :: regs where
  "example_regs = (\<lambda>_. 0)(2 := 0x1000)"

text \<open>
  C4, as the code has it. For a load of a pre/post-index form (LDR or LDRS), a first pass
  (no value) that succeeds leaves the register file as it was and yields the width; the
  second pass (with the loaded value) succeeds too, adds \<open>imm9\<close> to \<open>regs[Rn]\<close> and then
  stores the value (sign-extended from the access width for LDRS) into \<open>regs[Rt]\<close>, unless
  \<open>Rt = 31\<close>. For LDRS the access width is taken to be at most 32 bits, where the
  sign-extending shifts are defined.
\<close>

theorem emulate_load_two_pass:
  assumes form: "insn AND 0x3fe00400 = 0x38400400 \<or> insn AND 0x3fa00400 = 0x38800400"
      and first: "emulate_load regs insn None = Inr (True, r1, w)"
      and ext: "insn AND 0x3fe00400 = 0x38400400 \<or> EXT_defined (8 * 2 ^ unat (insn_width insn))"
  shows "r1 = regs \<and> w = insn_width insn \<and> insn_Rn insn \<noteq> 31 \<and>
         emulate_load regs insn (Some v) =
           Inr (True,
                (let regs1 = regs(insn_Rn insn := regs (insn_Rn insn) + insn_imm9 insn);
                     v1 = (if insn AND 0x3fe00400 = 0x38400400 then v
                           else EXT (ucast v) (8 * 2 ^ unat (insn_width insn)))
                 in if insn_Rt insn = 31 then regs1 else regs1(insn_Rt insn := v1)),
                w)"
proof (cases "insn AND 0x3fe00400 = 0x38400400")
  case True
  then show ?thesis
    using first
    by (auto simp: emulate_load_def Let_def commit_rt_def split: if_splits)
next
  case False
  with form have ldrs: "insn AND 0x3fa00400 = 0x38800400" by simp
  from False ext have d: "EXT_defined (8 * 2 ^ unat (insn_width insn))" by simp
  have not_uoff: "insn AND 0x3fc00000 \<noteq> 0x39400000"
  proof
    assume a: "insn AND 0x3fc00000 = 0x39400000"
    have "(insn AND 0x3fc00000) AND 0x01000000 = (insn AND 0x3fa00400) AND 0x01000000"
      by (simp add: and.assoc)
    then show False unfolding a ldrs by simp
  qed
  show ?thesis
    using first False ldrs not_uoff d
    by (auto simp: emulate_load_def Let_def commit_rt_signed_def split: if_splits)
qed

theorem emulate_load_two_pass_witness:
  "emulate_load example_regs 0xF8408441 None = Inr (True, example_regs, 3)
   \<and> emulate_load example_regs 0xF8408441 (Some 77)
       = Inr (True, (example_regs(2 := 0x1008))(1 := 77), 3)"
proof -
  have f: "emulate_load example_regs 0xF8408441 None = Inr (True, example_regs, 3)"
    by (simp add: emulate_load_def Let_def insn_Rn_def insn_width_def)
  have "(0xF8408441 :: u32) AND 0x3fe00400 = 0x38400400" by simp
  from emulate_load_two_pass [OF disjI1 f disjI1, OF this this, of 77] f
  show ?thesis
    by (simp add: Let_def insn_Rn_def insn_Rt_def insn_imm9_def insn_width_def
        EXT_def example_regs_def)
qed

text \<open>
  The claim's first half fails at \<open>LDR X1, [X2], #8\<close> (\<open>0xF8408441\<close>): the first pass
  returns the register file untouched, so \<open>regs[2]\<close> is still \<open>0x1000\<close>, not \<open>0x1008\<close>.
\<close>

theorem emulate_load_first_pass_counterexample:
  "emulate_load example_regs 0xF8408441 None = Inr (True, example_regs, 3)
   \<and> example_regs 2 \<noteq> example_regs 2 + insn_imm9 0xF8408441"
  by (simp add: emulate_load_def Let_def insn_Rn_def insn_width_def insn_imm9_def EXT_def
      example_regs_def)

section \<open>Machine state: devices, memory, registers, and the trace of effects\<close>

text \<open>
  Every effect that leaves the hypervisor is appended to \<open>trace\<close>, in program order: the
  bytes handed to an I/O device, a flush, a width-specific store, a call of an
  in-hypervisor hook or of the exception proxy, and a write of \<open>ELR_EL2\<close>.
\<close>

datatype action =
    Iodev_write nat "u8 list"
  | Iodev_queue nat "u8 list"
  | Iodev_flush nat
  | Mem_write u64 u64 u64
  | Hook_call u64 u64 u64 bool u64
  | Exc_proxy u32 u64 u64 u64
  | Msr_ELR u64

datatype guard = GUARD_OFF | GUARD_SKIP | GUARD_RETURN

text \<open>
  Modelled from the spec: the I/O devices, guest memory and the exception vector are
  external capabilities (sections 5 and 6.1). A device is its queue \<open>rx\<close> of bytes still
  to be read; memory maps an address to its byte, or to \<open>None\<close> where an access takes a
  bus fault; \<open>guard_ret\<close> is the value the exception vector leaves in the result register
  when \<open>GUARD_RETURN\<close> unwinds the guarded call.
\<close>

record machine =
  rx :: "nat \<Rightarrow> u8 list"
  trace :: "action list"
  mem :: "u64 \<rightharpoonup> u8"
  iodev_proxy_buffer :: "nat \<Rightarrow> u32"
  uartproxy_iodev :: nat
  exc_count :: nat
  exc_guard :: guard
  guard_ret :: u64
  ESR_EL2 :: u64
  FAR_EL2 :: u64
  ELR_EL2 :: u64
  SCTLR_EL12 :: u64
  SPSR_EL2 :: u64
  PAR_EL1 :: u64

definition iodev_handle_events :: "nat \<Rightarrow> machine \<Rightarrow> machine" where
  "iodev_handle_events d s = s"

definition iodev_can_read :: "nat \<Rightarrow> machine \<Rightarrow> bool" where
  "iodev_can_read d s \<longleftrightarrow> rx s d \<noteq> []"

text \<open>\<open>iodev_read\<close> hands over at most \<open>n\<close> bytes: the bytes read, and the state after.\<close>

definition iodev_read :: "nat \<Rightarrow> nat \<Rightarrow> machine \<Rightarrow> u8 list \<times> machine" where
  "iodev_read d n s = (take n (rx s d), s\<lparr>rx := (rx s)(d := drop n (rx s d))\<rparr>)"

definition iodev_write :: "nat \<Rightarrow> u8 list \<Rightarrow> machine \<Rightarrow> machine" where
  "iodev_write d bs s = s\<lparr>trace := trace s @ [Iodev_write d bs]\<rparr>"

definition iodev_queue :: "nat \<Rightarrow> u8 list \<Rightarrow> machine \<Rightarrow> machine" where
  "iodev_queue d bs s = s\<lparr>trace := trace s @ [Iodev_queue d bs]\<rparr>"

definition iodev_flush :: "nat \<Rightarrow> machine \<Rightarrow> machine" where
  "iodev_flush d s = s\<lparr>trace := trace s @ [Iodev_flush d]\<rparr>"

subsection \<open>Little-endian fields and memory regions\<close>

primrec to_le :: "nat \<Rightarrow> 'a::len word \<Rightarrow> u8 list" where
  "to_le 0 w = []"
| "to_le (Suc n) w = ucast w # to_le n (drop_bit 8 w)"

primrec from_le :: "u8 list \<Rightarrow> 'a::len word" where
  "from_le [] = 0"
| "from_le (b # bs) = ucast b OR push_bit 8 (from_le bs)"

text \<open>Read \<open>n\<close> bytes upwards from \<open>addr\<close>; \<open>None\<close> when one of them faults.\<close>

primrec read_bytes :: "(u64 \<rightharpoonup> u8) \<Rightarrow> u64 \<Rightarrow> nat \<Rightarrow> u8 list option" where
  "read_bytes m addr 0 = Some []"
| "read_bytes m addr (Suc n) =
     (case m addr of
        None \<Rightarrow> None
      | Some b \<Rightarrow> map_option ((#) b) (read_bytes m (addr + 1) n))"

text \<open>Store bytes upwards from \<open>addr\<close> with the guard off: a faulting byte is a bus fault.\<close>

primrec store_bytes :: "u64 \<Rightarrow> u8 list \<Rightarrow> (u64 \<rightharpoonup> u8) \<Rightarrow> fault + (u64 \<rightharpoonup> u8)" where
  "store_bytes addr [] m = Inr m"
| "store_bytes addr (b # bs) m =
     (case m addr of
        None \<Rightarrow> Inl Bus_fault
      | Some _ \<Rightarrow> store_bytes (addr + 1) bs (m(addr \<mapsto> b)))"

text \<open>\<open>write8\<close> under \<open>GUARD_SKIP\<close>: a faulting store is stepped over and counted.\<close>

definition write8_skip :: "u64 \<Rightarrow> u8 \<Rightarrow> machine \<Rightarrow> machine" where
  "write8_skip a v s =
     (case mem s a of
        None \<Rightarrow> s\<lparr>exc_count := exc_count s + 1\<rparr>
      | Some _ \<Rightarrow> s\<lparr>mem := (mem s)(a \<mapsto> v)\<rparr>)"

text \<open>
  \<open>checksum(addr, size)\<close> under \<open>GUARD_RETURN\<close>. The length parameter of \<open>checksum\<close> is a
  \<open>u32\<close>, so the 64-bit \<open>size\<close> is truncated. A fault unwinds \<open>checksum_block\<close>, counts one
  exception and leaves \<open>guard_ret\<close> as its result.
\<close>

definition checksum_guarded :: "u64 \<Rightarrow> u64 \<Rightarrow> machine \<Rightarrow> u32 \<times> machine" where
  "checksum_guarded addr sz s =
     (case read_bytes (mem s) addr (unat (ucast sz :: u32)) of
        None \<Rightarrow> (checksum_finish (ucast (guard_ret s)), s\<lparr>exc_count := exc_count s + 1\<rparr>)
      | Some bs \<Rightarrow> (checksum bs, s))"

section \<open>UART proxy\<close>

definition REQ_SIZE :: nat where "REQ_SIZE = 64"
definition REPLY_SIZE :: nat where "REPLY_SIZE = 36"

definition REQ_NOP :: u32 where "REQ_NOP = 0x00AA55FF"
definition REQ_PROXY :: u32 where "REQ_PROXY = 0x01AA55FF"
definition REQ_MEMREAD :: u32 where "REQ_MEMREAD = 0x02AA55FF"
definition REQ_MEMWRITE :: u32 where "REQ_MEMWRITE = 0x03AA55FF"
definition REQ_BOOT :: u32 where "REQ_BOOT = 0x04AA55FF"
definition REQ_EVENT :: u32 where "REQ_EVENT = 0x05AA55FF"

definition ST_OK :: u32 where "ST_OK = 0"
definition ST_BADCMD :: u32 where "ST_BADCMD = - 1"
definition ST_INVAL :: u32 where "ST_INVAL = - 2"
definition ST_XFRERR :: u32 where "ST_XFRERR = - 3"
definition ST_CSUMERR :: u32 where "ST_CSUMERR = - 4"

text \<open>
  \<open>UartReply\<close>: type, status and the 24 bytes of the union; the checksum is computed when
  the reply is sent. \<open>reply_bytes\<close> is what \<open>reply.checksum = checksum(&reply, REPLY_SIZE - 4);
  iodev_write(iodev, &reply, REPLY_SIZE)\<close> puts on the wire.
\<close>

record UartReply =
  r_type :: u32
  r_status :: u32
  r_payload :: "u8 list"

definition reply_zero :: UartReply where
  "reply_zero = \<lparr>r_type = 0, r_status = 0, r_payload = replicate 24 0\<rparr>"

definition reply_bytes :: "UartReply \<Rightarrow> u8 list" where
  "reply_bytes r =
     (let b = to_le 4 (r_type r) @ to_le 4 (r_status r) @ take 24 (r_payload r @ replicate 24 0)
      in b @ to_le 4 (checksum (take (REPLY_SIZE - 4) b)))"

text \<open>\<open>reply.mreply.dchecksum = v\<close>: the first four bytes of the union.\<close>

definition set_dchecksum :: "u32 \<Rightarrow> UartReply \<Rightarrow> UartReply" where
  "set_dchecksum v r = r\<lparr>r_payload := to_le 4 v @ drop 4 (r_payload r)\<rparr>"

text \<open>
  Modelled from the spec: what lies outside these sources and is called from them. The
  device count \<open>IODEV_MAX\<close> and the console id \<open>IODEV_UART\<close>; \<open>proxy_process\<close>, from the
  request payload to its return code and the reply payload; the address-translation
  instruction \<open>at_insn s1 w el0 addr\<close>, giving the new \<open>PAR_EL1\<close>; an in-hypervisor hook
  \<open>hv_hook target ipa val write width\<close>, giving its verdict and the new \<open>*val\<close>; and
  \<open>hv_exc_proxy\<close>, from the register frame and the hook record \<open>(flags, id, addr, data)\<close>
  to the frame and the record's \<open>data\<close> on return. None of them is taken to touch the
  machine state of this model.
\<close>

record env =
  IODEV_MAX :: nat
  IODEV_UART :: nat
  proxy_process :: "u8 list \<Rightarrow> int \<times> u8 list"
  at_insn :: "bool \<Rightarrow> bool \<Rightarrow> bool \<Rightarrow> u64 \<Rightarrow> u64"
  hv_hook :: "u64 \<Rightarrow> u64 \<Rightarrow> u64 \<Rightarrow> bool \<Rightarrow> u64 \<Rightarrow> bool \<times> u64"
  hv_exc_proxy :: "regs \<Rightarrow> u32 \<times> u64 \<times> u64 \<times> u64 \<Rightarrow> regs \<times> u64"

subsection \<open>Frame synchronisation\<close>

text \<open>One byte into a rolling sync buffer: \<open>buf >>= 8; buf |= b << 24\<close>.\<close>

definition sync_shift :: "u32 \<Rightarrow> u8 \<Rightarrow> u32" where
  "sync_shift buf b = drop_bit 8 buf OR push_bit 24 (ucast b)"

definition synced :: "u32 \<Rightarrow> bool" where
  "synced buf \<longleftrightarrow> buf AND 0xffffff = 0xAA55FF"

text \<open>
  Re-entry (\<open>start\<close> not null): the \<open>do ... while\<close> loop reads the current device byte by
  byte until the buffer ends in the sync sequence. The recursion is on the bytes the
  device holds; when they run out before a sync, \<open>iodev_read\<close> fails and the proxy returns
  \<open>-1\<close>. The result is whether the sync was found, the bytes left, and the buffer.
\<close>

primrec sync_scan :: "u8 list \<Rightarrow> u32 \<Rightarrow> bool \<times> u8 list \<times> u32" where
  "sync_scan [] buf = (False, [], buf)"
| "sync_scan (b # bs) buf =
     (if synced (sync_shift buf b) then (True, bs, sync_shift buf b)
      else sync_scan bs (sync_shift buf b))"

definition sync_warm :: "nat \<Rightarrow> machine \<Rightarrow> bool \<times> machine" where
  "sync_warm iodev s =
     (let (ok, rest, buf) = sync_scan (rx s iodev) (iodev_proxy_buffer s iodev)
      in (ok, s\<lparr>rx := (rx s)(iodev := rest),
                 iodev_proxy_buffer := (iodev_proxy_buffer s)(iodev := buf)\<rparr>))"

text \<open>
  Cold entry (\<open>start\<close> null): the \<open>for\<close> loop polls the devices round-robin, one byte at a
  time, until one device's buffer ends in the sync sequence. With no data arriving it
  polls forever, which is the value \<open>None\<close>.
\<close>

partial_function (option) sync_cold :: "nat \<Rightarrow> nat \<Rightarrow> machine \<Rightarrow> (nat \<times> machine) option" where
  "sync_cold n iodev s =
     (if \<not> iodev < n then Some (iodev, s)
      else
        let s1 = iodev_handle_events iodev s in
        if iodev_can_read iodev s1 \<and> length (fst (iodev_read iodev 1 s1)) = 1
        then
          (let (bs, s2) = iodev_read iodev 1 s1;
               buf = sync_shift (iodev_proxy_buffer s2 iodev) (hd bs);
               s3 = s2\<lparr>iodev_proxy_buffer := (iodev_proxy_buffer s2)(iodev := buf)\<rparr>
           in if synced buf then Some (iodev, s3)
              else sync_cold n (if iodev + 1 = n then 0 else iodev + 1) s3)
        else sync_cold n (if iodev + 1 = n then 0 else iodev + 1) s1)"

declare sync_cold.simps [code]

subsection \<open>Request handling\<close>

text \<open>
  The request as it lies in memory from \<open>&request.type\<close> on: the four bytes of \<open>type\<close>
  (taken from the sync buffer) and the \<open>REQ_SIZE - 4\<close> bytes read after it. The memory
  request fields \<open>addr\<close>, \<open>size\<close> and \<open>dchecksum\<close> start right after \<open>type\<close>; the request
  checksum is the last word of the frame.
\<close>

definition req_addr :: "u8 list \<Rightarrow> u64" where
  "req_addr request = from_le (take 8 (drop 4 request))"

definition req_size :: "u8 list \<Rightarrow> u64" where
  "req_size request = from_le (take 8 (drop 12 request))"

definition req_dchecksum :: "u8 list \<Rightarrow> u32" where
  "req_dchecksum request = from_le (take 4 (drop 20 request))"

definition req_checksum :: "u8 list \<Rightarrow> u32" where
  "req_checksum request = from_le (take 4 (drop (REQ_SIZE - 4) request))"

definition req_prequest :: "u8 list \<Rightarrow> u8 list" where
  "req_prequest request = take (REQ_SIZE - 8) (drop 4 request)"

text \<open>\<open>case REQ_MEMREAD\<close>\<close>

definition uartproxy_memread :: "u64 \<Rightarrow> u64 \<Rightarrow> UartReply \<Rightarrow> machine \<Rightarrow> UartReply \<times> machine" where
  "uartproxy_memread addr sz reply s =
     (if sz = 0 then (reply, s)
      else
        let s1 = s\<lparr>exc_count := 0, exc_guard := GUARD_RETURN\<rparr>;
            (checksum_val, s2) = checksum_guarded addr sz s1;
            s3 = s2\<lparr>exc_guard := GUARD_OFF\<rparr>;
            reply1 = (if exc_count s3 \<noteq> 0 then reply\<lparr>r_status := ST_XFRERR\<rparr> else reply)
        in (set_dchecksum checksum_val reply1, s3))"

text \<open>
  \<open>case REQ_MEMWRITE\<close>, first the probe of both ends of the destination under
  \<open>GUARD_SKIP\<close>, then the rest.
\<close>

definition memwrite_probe :: "u64 \<Rightarrow> u64 \<Rightarrow> machine \<Rightarrow> machine" where
  "memwrite_probe addr sz s =
     (let s1 = s\<lparr>exc_count := 0, exc_guard := GUARD_SKIP\<rparr>;
          s2 = (if sz \<noteq> 0 then write8_skip (addr + sz - 1) 0 (write8_skip addr 0 s1) else s1)
      in s2\<lparr>exc_guard := GUARD_OFF\<rparr>)"

definition uartproxy_memwrite ::
  "nat \<Rightarrow> u64 \<Rightarrow> u64 \<Rightarrow> u32 \<Rightarrow> UartReply \<Rightarrow> machine \<Rightarrow> fault + (UartReply \<times> machine)" where
  "uartproxy_memwrite iodev addr sz dchecksum reply s =
     (let s3 = memwrite_probe addr sz s in
      if exc_count s3 \<noteq> 0 then Inr (reply\<lparr>r_status := ST_XFRERR\<rparr>, s3)
      else
        let (bytes, s4) = iodev_read iodev (unat sz) s3 in
        bind_res (store_bytes addr bytes (mem s4)) (\<lambda>m.
        let s5 = s4\<lparr>mem := m\<rparr> in
        if length bytes \<noteq> unat sz then Inr (reply\<lparr>r_status := ST_XFRERR\<rparr>, s5)
        else
          case read_bytes (mem s5) addr (unat (ucast sz :: u32)) of
            None \<Rightarrow> Inl Bus_fault
          | Some written \<Rightarrow>
              let reply1 = set_dchecksum (checksum written) reply in
              Inr (if checksum written \<noteq> dchecksum then reply1\<lparr>r_status := ST_XFRERR\<rparr>
                   else reply1, s5)))"

text \<open>
  The \<open>switch\<close> on the request type: the reply, whether the loop keeps running, the proxy's
  return code when there is one, and the state.
\<close>

definition uartproxy_dispatch ::
  "env \<Rightarrow> nat \<Rightarrow> u8 list \<Rightarrow> UartReply \<Rightarrow> machine \<Rightarrow>
   fault + (UartReply \<times> bool \<times> int option \<times> machine)" where
  "uartproxy_dispatch e iodev request reply s =
     (let rtype = r_type reply in
      if rtype = REQ_NOP then Inr (reply, True, None, s)
      else if rtype = REQ_PROXY then
        (let (ret, preply) = proxy_process e (req_prequest request)
         in Inr (reply\<lparr>r_payload := preply\<rparr>, ret = 0, Some ret, s))
      else if rtype = REQ_MEMREAD then
        (let (reply1, s1) = uartproxy_memread (req_addr request) (req_size request) reply s
         in Inr (reply1, True, None, s1))
      else if rtype = REQ_MEMWRITE then
        bind_res (uartproxy_memwrite iodev (req_addr request) (req_size request)
                    (req_dchecksum request) reply s)
          (\<lambda>(reply1, s1). Inr (reply1, True, None, s1))
      else Inr (reply\<lparr>r_status := ST_BADCMD\<rparr>, True, None, s))"

text \<open>
  One round of the \<open>while (running)\<close> loop from the point where the sync has been found
  on \<open>iodev\<close>. \<open>Continue\<close> goes round again; \<open>Return r\<close> leaves the loop with \<open>r\<close>.
\<close>

datatype outcome = Continue | Return int

definition handle_frame :: "env \<Rightarrow> nat \<Rightarrow> machine \<Rightarrow> fault + (outcome \<times> machine)" where
  "handle_frame e iodev s =
     (let rtype = iodev_proxy_buffer s iodev;
          (body, s1) = iodev_read iodev (REQ_SIZE - 4) s
      in
      if length body \<noteq> REQ_SIZE - 4 then Inr (Continue, s1)
      else
        let request = to_le 4 rtype @ body in
        if checksum (take (REQ_SIZE - 4) request) \<noteq> req_checksum request then
          Inr (Continue,
               iodev_write iodev
                 (reply_bytes (reply_zero\<lparr>r_type := rtype, r_status := ST_CSUMERR\<rparr>)) s1)
        else
          let reply = reply_zero\<lparr>r_type := rtype, r_status := ST_OK\<rparr>;
              s2 = s1\<lparr>uartproxy_iodev := iodev\<rparr>
          in
          bind_res (uartproxy_dispatch e iodev request reply s2) (\<lambda>(reply1, running, ret, s3).
          let s4 = iodev_write iodev (reply_bytes reply1) s3 in
          bind_res
            (if rtype = REQ_MEMREAD \<and> r_status reply1 = ST_OK then
               (case read_bytes (mem s4) (req_addr request) (unat (req_size request)) of
                  None \<Rightarrow> Inl Bus_fault
                | Some bs \<Rightarrow> Inr (iodev_write iodev bs s4))
             else Inr s4)
            (\<lambda>s5. Inr (if running then Continue else Return (case ret of Some r \<Rightarrow> r | None \<Rightarrow> 0),
                        s5))))"

text \<open>
  One round of the \<open>while (running)\<close> loop of \<open>uartproxy_run\<close>: find the sync, then
  handle the frame. \<open>warm\<close> is \<open>start != NULL\<close>; then the proxy sticks to \<open>iodev\<close>, and a
  failed read returns \<open>-1\<close>. Otherwise the round polls all devices, which need not end:
  not returning is the value \<open>None\<close>. The result names the device the round ended on.
\<close>

definition uartproxy_round ::
  "env \<Rightarrow> bool \<Rightarrow> nat \<Rightarrow> machine \<Rightarrow> (nat \<times> (fault + (outcome \<times> machine))) option" where
  "uartproxy_round e warm iodev s =
     (if warm then
        (let (ok, s1) = sync_warm iodev s
         in if ok then Some (iodev, handle_frame e iodev s1)
            else Some (iodev, Inr (Return (- 1), s1)))
      else map_option (\<lambda>(d, s1). (d, handle_frame e d s1)) (sync_cold (IODEV_MAX e) 0 s))"

partial_function (option) uartproxy_loop ::
  "env \<Rightarrow> bool \<Rightarrow> nat \<Rightarrow> machine \<Rightarrow> (fault + (int \<times> machine)) option" where
  "uartproxy_loop e warm iodev s =
     Option.bind (uartproxy_round e warm iodev s) (\<lambda>dr.
       case snd dr of
         Inl f \<Rightarrow> Some (Inl f)
       | Inr os \<Rightarrow>
           (case fst os of
              Continue \<Rightarrow> uartproxy_loop e warm (fst dr) (snd os)
            | Return r \<Rightarrow> Some (Inr (r, snd os))))"

declare uartproxy_loop.simps [code]

text \<open>
  \<open>uartproxy_run(start)\<close>: \<open>start\<close> is \<open>None\<close> for the null pointer, else the bytes of the
  start record. The boot reply goes to the console on a cold entry and to the bound device
  on a re-entry.
\<close>

definition uartproxy_run ::
  "env \<Rightarrow> u8 list option \<Rightarrow> machine \<Rightarrow> (fault + (int \<times> machine)) option" where
  "uartproxy_run e start s =
     (case start of
        None \<Rightarrow>
          uartproxy_loop e False (IODEV_MAX e)
            (iodev_write (IODEV_UART e) (reply_bytes (reply_zero\<lparr>r_type := REQ_BOOT\<rparr>)) s)
      | Some st \<Rightarrow>
          uartproxy_loop e True (uartproxy_iodev s)
            (iodev_write (uartproxy_iodev s)
               (reply_bytes (reply_zero\<lparr>r_type := REQ_BOOT, r_payload := st\<rparr>)) s))"

text \<open>\<open>uartproxy_send_event(event_type, data, length)\<close>, with \<open>data\<close> the \<open>length\<close> bytes.\<close>

definition uartproxy_send_event :: "u16 \<Rightarrow> u8 list \<Rightarrow> machine \<Rightarrow> machine" where
  "uartproxy_send_event event_type data s =
     (let hdr = to_le 4 REQ_EVENT @ to_le 2 (of_nat (length data) :: u16) @ to_le 2 event_type;
          csum = checksum_finish (checksum_add data (checksum_start hdr))
      in iodev_write (uartproxy_iodev s) (to_le 4 csum)
           (iodev_queue (uartproxy_iodev s) data
              (iodev_queue (uartproxy_iodev s) hdr s)))"

section \<open>UART proxy: properties\<close>

text \<open>
  The destination region of a memory request: the \<open>sz\<close> addresses from \<open>addr\<close> upwards,
  modulo \<open>2^64\<close>.
\<close>

definition in_region :: "u64 \<Rightarrow> u64 \<Rightarrow> u64 \<Rightarrow> bool" where
  "in_region addr sz a \<longleftrightarrow> a - addr < sz"

lemma store_bytes_outside:
  "store_bytes addr bs m = Inr m' \<Longrightarrow> length bs \<le> unat sz \<Longrightarrow> \<not> a - addr < sz \<Longrightarrow> m' a = m a"
proof (induction bs arbitrary: addr m sz)
  case Nil
  then show ?case by simp
next
  case (Cons b bs)
  from Cons.prems(1) obtain old where old: "m addr = Some old"
    and rest: "store_bytes (addr + 1) bs (m(addr \<mapsto> b)) = Inr m'"
    by (auto split: option.splits)
  from Cons.prems(2) have sz1: "1 \<le> unat sz" by simp
  then have usz: "unat (sz - 1) = unat sz - 1"
    by (metis unat_1 unat_sub word_le_nat_alt)
  have len: "length bs \<le> unat (sz - 1)" using Cons.prems(2) usz by simp
  from Cons.prems(3) have ge: "unat sz \<le> unat (a - addr)"
    by (simp add: word_less_nat_alt)
  then have x1: "1 \<le> unat (a - addr)" using sz1 by simp
  then have ux: "unat (a - addr - 1) = unat (a - addr) - 1"
    by (metis unat_1 unat_sub word_le_nat_alt)
  have eq: "a - (addr + 1) = a - addr - 1" by simp
  have out: "\<not> a - (addr + 1) < sz - 1"
    unfolding eq using ge ux usz by (simp add: word_less_nat_alt)
  have ne: "a \<noteq> addr" using x1 by auto
  from Cons.IH [OF rest len out] ne show ?case by simp
qed

lemma store_bytes_inside:
  "store_bytes addr bs m = Inr m' \<Longrightarrow> length bs \<le> 2 ^ 64 \<Longrightarrow> i < length bs \<Longrightarrow>
   m' (addr + of_nat i) = Some (bs ! i)"
proof (induction bs arbitrary: addr m i)
  case Nil
  then show ?case by simp
next
  case (Cons b bs)
  from Cons.prems(1) obtain old where old: "m addr = Some old"
    and rest: "store_bytes (addr + 1) bs (m(addr \<mapsto> b)) = Inr m'"
    by (auto split: option.splits)
  from Cons.prems(2) have len: "length bs < 2 ^ 64" by simp
  show ?case
  proof (cases i)
    case 0
    have l: "length bs \<le> unat (word_of_nat (length bs) :: u64)"
      using len by (simp add: unat_of_nat)
    have "addr - (addr + 1) = (- 1 :: u64)" by simp
    then have "\<not> addr - (addr + 1) < (word_of_nat (length bs) :: u64)"
      by (simp add: word_order.extremum_strict)
    from store_bytes_outside [OF rest l this] 0 show ?thesis by simp
  next
    case (Suc j)
    with Cons.prems(3) have j: "j < length bs" by simp
    from Cons.IH [OF rest _ j] len Suc show ?thesis
      by (simp add: ac_simps)
  qed
qed

lemma write8_skip_other: "a' \<noteq> a \<Longrightarrow> mem (write8_skip a v s) a' = mem s a'"
  by (simp add: write8_skip_def split: option.splits)

lemma write8_skip_rx [simp]: "rx (write8_skip a v s) = rx s"
  by (simp add: write8_skip_def split: option.splits)

lemma in_region_first: "sz \<noteq> 0 \<Longrightarrow> in_region addr sz addr"
  by (simp add: in_region_def word_neq_0_conv)

lemma in_region_last: "sz \<noteq> 0 \<Longrightarrow> in_region addr sz (addr + sz - 1)"
proof -
  assume "sz \<noteq> 0"
  then have "1 \<le> unat sz" by (simp add: unat_gt_0 Suc_leI)
  then have "unat (sz - 1) = unat sz - 1" by (metis unat_1 unat_sub word_le_nat_alt)
  with \<open>1 \<le> unat sz\<close> have "sz - 1 < sz" by (simp add: word_less_nat_alt)
  moreover have "addr + sz - 1 - addr = sz - 1" by simp
  ultimately show ?thesis by (simp add: in_region_def)
qed


text \<open>An environment and a machine for concrete runs: 16 bytes of memory at \<open>0x1000\<close>.\<close>

definition example_env :: env where
  "example_env = \<lparr>IODEV_MAX = 2, IODEV_UART = 0, proxy_process = (\<lambda>_. (0, [])),
     at_insn = (\<lambda>_ _ _ a. a), hv_hook = (\<lambda>_ _ v _ _. (True, v)), hv_exc_proxy = (\<lambda>r _. (r, 0))\<rparr>"

definition example_machine :: "(nat \<Rightarrow> u8 list) \<Rightarrow> machine" where
  "example_machine q = \<lparr>rx = q, trace = [], mem = (\<lambda>a. if 0x1000 \<le> a \<and> a < 0x1010 then Some 0xEE else None),
     iodev_proxy_buffer = (\<lambda>_. 0), uartproxy_iodev = 0, exc_count = 0, exc_guard = GUARD_OFF, guard_ret = 0,
     ESR_EL2 = 0, FAR_EL2 = 0, ELR_EL2 = 0, SCTLR_EL12 = 0, SPSR_EL2 = 0, PAR_EL1 = 0\<rparr>"

lemma memwrite_probe_rx: "rx (memwrite_probe addr sz s) = rx s"
  by (simp add: memwrite_probe_def Let_def)

lemma memwrite_probe_outside:
  assumes "\<not> in_region addr sz a"
  shows "mem (memwrite_probe addr sz s) a = mem s a"
proof (cases "sz = 0")
  case True
  then show ?thesis by (simp add: memwrite_probe_def Let_def)
next
  case False
  from assms in_region_first [OF False] have n1: "a \<noteq> addr" by auto
  from assms in_region_last [OF False] have n2: "a \<noteq> addr + sz - 1" by auto
  show ?thesis using False n1 n2
    by (simp add: memwrite_probe_def Let_def write8_skip_other)
qed

lemma uartproxy_memwrite_cases:
  assumes run: "uartproxy_memwrite iodev addr sz dchecksum reply s = Inr (reply', s')"
  shows "(exc_count (memwrite_probe addr sz s) \<noteq> 0 \<and> s' = memwrite_probe addr sz s)
       \<or> (exc_count (memwrite_probe addr sz s) = 0 \<and> exc_count s' = 0 \<and>
          store_bytes addr (take (unat sz) (rx s iodev)) (mem (memwrite_probe addr sz s))
            = Inr (mem s'))"
proof (cases "exc_count (memwrite_probe addr sz s) \<noteq> 0")
  case True
  with run show ?thesis by (simp add: uartproxy_memwrite_def Let_def)
next
  case False
  obtain r where r: "store_bytes addr (take (unat sz) (rx s iodev)) (mem (memwrite_probe addr sz s)) = r"
    by simp
  show ?thesis
  proof (cases r)
    case (Inl f)
    with run False r show ?thesis
      by (simp add: uartproxy_memwrite_def Let_def iodev_read_def memwrite_probe_rx)
  next
    case (Inr m)
    with run False r have "mem s' = m \<and> exc_count s' = 0"
      by (auto simp: uartproxy_memwrite_def Let_def iodev_read_def memwrite_probe_rx
          split: if_splits option.splits)
    with False r Inr show ?thesis by simp
  qed
qed


text \<open>
  What the probe leaves in memory: zero at the first and the last byte of the destination
  where they are writable, and every other byte as it was.
\<close>

lemma memwrite_probe_mem:
  "mem (memwrite_probe addr sz s) a =
     (if sz \<noteq> 0 \<and> (a = addr \<or> a = addr + sz - 1) \<and> mem s a \<noteq> None then Some 0 else mem s a)"
  by (auto simp: memwrite_probe_def Let_def write8_skip_def split: option.splits)

lemma store_bytes_beyond:
  assumes st: "store_bytes addr bs m = Inr m'" and len: "length bs < 2 ^ 64"
    and out: "\<not> a - addr < (of_nat (length bs) :: u64)"
  shows "m' a = m a"
proof -
  have "length bs \<le> unat (of_nat (length bs) :: u64)"
    using len by (simp add: unat_of_nat)
  from store_bytes_outside [OF st this out] show ?thesis .
qed

text \<open>
  C3, as the code has it. A MEMWRITE request that ends with a status other than OK leaves
  every byte outside the destination region as it was. Inside the region nothing is
  rolled back: when no probe faulted, the bytes received from the device are in the
  destination, from its first byte on, although the request failed. Every byte that
  received bytes have not overwritten (all of memory when a probe faulted) holds what the
  probe left: zero at the first and the last byte of the region where they are writable,
  and its old value elsewhere.
\<close>

theorem memwrite_failure_effect:
  assumes run: "uartproxy_memwrite iodev addr sz dchecksum reply s = Inr (reply', s')"
      and fail: "r_status reply' \<noteq> ST_OK"
  shows "(\<forall>a. \<not> in_region addr sz a \<longrightarrow> mem s' a = mem s a)
       \<and> (exc_count s' = 0 \<longrightarrow>
            (\<forall>i < length (take (unat sz) (rx s iodev)).
               mem s' (addr + of_nat i) = Some (rx s iodev ! i)))
       \<and> (\<forall>a. exc_count s' \<noteq> 0
               \<or> \<not> a - addr < (of_nat (length (take (unat sz) (rx s iodev))) :: u64) \<longrightarrow>
            mem s' a = (if sz \<noteq> 0 \<and> (a = addr \<or> a = addr + sz - 1) \<and> mem s a \<noteq> None
                        then Some 0 else mem s a))"
proof -
  define bytes where "bytes = take (unat sz) (rx s iodev)"
  have len: "length bytes \<le> unat sz" by (simp add: bytes_def)
  have len64: "length bytes \<le> 2 ^ 64"
    using len unsigned_less [of sz, where 'a = nat] by simp
  have lenlt: "length bytes < 2 ^ 64"
    using len unsigned_less [of sz, where 'a = nat] by simp
  from uartproxy_memwrite_cases [OF run] show ?thesis
  proof
    assume "exc_count (memwrite_probe addr sz s) \<noteq> 0 \<and> s' = memwrite_probe addr sz s"
    then have s': "s' = memwrite_probe addr sz s" and ne: "exc_count s' \<noteq> 0" by simp_all
    have c1: "\<forall>a. \<not> in_region addr sz a \<longrightarrow> mem s' a = mem s a"
      by (simp add: s' memwrite_probe_outside)
    have c3: "mem s' a = (if sz \<noteq> 0 \<and> (a = addr \<or> a = addr + sz - 1) \<and> mem s a \<noteq> None
                        then Some 0 else mem s a)" for a
      unfolding s' by (rule memwrite_probe_mem)
    from c1 c3 ne show ?thesis by blast
  next
    assume a: "exc_count (memwrite_probe addr sz s) = 0 \<and> exc_count s' = 0 \<and>
          store_bytes addr (take (unat sz) (rx s iodev)) (mem (memwrite_probe addr sz s))
            = Inr (mem s')"
    then have st: "store_bytes addr bytes (mem (memwrite_probe addr sz s)) = Inr (mem s')"
      and ec: "exc_count s' = 0"
      by (simp_all add: bytes_def)
    have "mem s' a = mem s a" if "\<not> in_region addr sz a" for a
      using store_bytes_outside [OF st len] that memwrite_probe_outside [OF that]
      by (simp add: in_region_def)
    moreover have "mem s' (addr + of_nat i) = Some (rx s iodev ! i)" if "i < length bytes" for i
      using store_bytes_inside [OF st len64 that] that by (simp add: bytes_def)
    moreover have "mem s' a = (if sz \<noteq> 0 \<and> (a = addr \<or> a = addr + sz - 1) \<and> mem s a \<noteq> None
                        then Some 0 else mem s a)"
      if "\<not> a - addr < (of_nat (length bytes) :: u64)" for a
      using store_bytes_beyond [OF st lenlt that] by (simp only: memwrite_probe_mem)
    ultimately show ?thesis using ec by (simp add: bytes_def)
  qed
qed

text \<open>
  A MEMWRITE of four bytes to \<open>0x1000\<close> for which the device delivers only two.
\<close>

theorem memwrite_failure_effect_witness:
  "\<exists>r s'. uartproxy_memwrite 0 0x1000 4 0 (reply_zero\<lparr>r_type := REQ_MEMWRITE\<rparr>)
              (example_machine (\<lambda>d. [1, 2])) = Inr (r, s')
     \<and> r_status r \<noteq> ST_OK
     \<and> mem s' 0x2000 = mem (example_machine (\<lambda>d. [1, 2])) 0x2000
     \<and> mem s' 0x1001 = Some 2
     \<and> mem s' 0x1002 = Some 0xEE
     \<and> mem s' 0x1003 = Some 0"
proof -
  have "case uartproxy_memwrite 0 0x1000 4 0 (reply_zero\<lparr>r_type := REQ_MEMWRITE\<rparr>)
               (example_machine (\<lambda>d. [1, 2])) of
          Inl f \<Rightarrow> False
        | Inr (r, s') \<Rightarrow> r_status r = ST_XFRERR \<and> exc_count s' = 0"
    by code_simp
  then obtain r s' where run: "uartproxy_memwrite 0 0x1000 4 0 (reply_zero\<lparr>r_type := REQ_MEMWRITE\<rparr>)
               (example_machine (\<lambda>d. [1, 2])) = Inr (r, s')"
    and st: "r_status r = ST_XFRERR" and ec: "exc_count s' = 0"
    by (auto split: sum.splits)
  from st have fail: "r_status r \<noteq> ST_OK" by (simp add: ST_XFRERR_def ST_OK_def)
  have out: "\<not> in_region 0x1000 4 0x2000" by (simp add: in_region_def)
  have l: "length (take (unat (4 :: u64)) (rx (example_machine (\<lambda>d. [1, 2])) 0)) = 2"
    by (simp add: example_machine_def)
  have b2: "\<not> (0x1002 :: u64) - 0x1000 < of_nat 2" "\<not> (0x1003 :: u64) - 0x1000 < of_nat 2"
    by simp_all
  from memwrite_failure_effect [OF run fail]
  have c1: "\<forall>a. \<not> in_region 0x1000 4 a \<longrightarrow> mem s' a = mem (example_machine (\<lambda>d. [1, 2])) a"
    and c2: "\<forall>i < 2. mem s' (0x1000 + of_nat i)
               = Some (rx (example_machine (\<lambda>d. [1, 2])) 0 ! i)"
    and c3: "\<forall>a. \<not> a - 0x1000 < (of_nat 2 :: u64) \<longrightarrow>
               mem s' a = (if (4 :: u64) \<noteq> 0 \<and> (a = 0x1000 \<or> a = 0x1000 + 4 - 1)
                              \<and> mem (example_machine (\<lambda>d. [1, 2])) a \<noteq> None
                           then Some 0 else mem (example_machine (\<lambda>d. [1, 2])) a)"
    using ec unfolding l by blast+
  from c1 out have "mem s' 0x2000 = mem (example_machine (\<lambda>d. [1, 2])) 0x2000" by blast
  moreover from c2 [rule_format, of 1] have "mem s' 0x1001 = Some 2"
    by (simp add: example_machine_def)
  moreover from c3 [rule_format, OF b2(1)] have "mem s' 0x1002 = Some 0xEE"
    by (simp add: example_machine_def)
  moreover from c3 [rule_format, OF b2(2)] have "mem s' 0x1003 = Some 0"
    by (simp add: example_machine_def)
  ultimately show ?thesis using run fail by blast
qed

text \<open>
  The claim fails for a MEMWRITE of four bytes to \<open>0x1000\<close> whose declared data checksum
  is wrong: the reply is \<open>XFRERR\<close>, and the destination, \<open>0xEE\<close> before, holds the
  received bytes 1, 2, 3, 4.
\<close>

theorem memwrite_partial_commit_counterexample:
  "bind_res (uartproxy_memwrite 0 0x1000 4 0 (reply_zero\<lparr>r_type := REQ_MEMWRITE\<rparr>)
               (example_machine (\<lambda>d. [1, 2, 3, 4])))
     (\<lambda>(r, s'). Inr (r_status r, map (mem s') [0x1000, 0x1001, 0x1002, 0x1003]))
   = Inr (ST_XFRERR, [Some 1, Some 2, Some 3, Some 4])
   \<and> map (mem (example_machine (\<lambda>d. [1, 2, 3, 4]))) [0x1000, 0x1001, 0x1002, 0x1003]
     = [Some 0xEE, Some 0xEE, Some 0xEE, Some 0xEE]
   \<and> in_region 0x1000 4 0x1000"
  by code_simp

subsection \<open>Checksums detect a changed byte\<close>

lemma checksum_block_diff:
  "checksum_block ys u - checksum_block ys v = (u - v) * 31337 ^ length ys"
proof (induction ys arbitrary: u v)
  case Nil
  then show ?case by simp
next
  case (Cons y ys)
  have "checksum_block (y # ys) u - checksum_block (y # ys) v
      = (u * 31337 + (ucast y XOR 0x5A) - (v * 31337 + (ucast y XOR 0x5A))) * 31337 ^ length ys"
    by (simp add: Cons.IH)
  also have "\<dots> = (u - v) * 31337 ^ length (y # ys)"
    by (simp add: algebra_simps)
  finally show ?case .
qed

lemma mult_31337_power_inj:
  assumes "(d :: u32) * 31337 ^ n = 0"
  shows "d = 0"
proof -
  have inv: "(31337 :: u32) * 3341596121 = 1" by simp
  have one: "(31337 :: u32) ^ n * 3341596121 ^ n = 1"
    by (simp only: power_mult_distrib [symmetric] inv power_one)
  from assms have "d * 31337 ^ n * 3341596121 ^ n = 0 * 3341596121 ^ n"
    by (simp only:)
  then have "d * (31337 ^ n * 3341596121 ^ n) = 0"
    by (simp only: mult.assoc mult_zero_left)
  then show ?thesis
    by (simp only: one mult.right_neutral)
qed

lemma ucast_8_32_inj:
  assumes "(ucast (b :: u8) :: u32) = ucast b'"
  shows "b = b'"
proof (rule bit_word_eqI)
  fix n
  assume n: "n < LENGTH(8)"
  from assms have "bit (ucast b :: u32) n = bit (ucast b' :: u32) n" by simp
  with n show "bit b n = bit b' n" by (simp add: bit_ucast_iff)
qed

lemma xor_cancel: "(a :: u32) XOR c = b XOR c \<Longrightarrow> a = b"
  by (metis bit.xor_left_self xor.commute)

lemma checksum_block_update_neq:
  assumes i: "i < length bs" and b: "b \<noteq> bs ! i"
  shows "checksum_block (bs[i := b]) acc \<noteq> checksum_block bs acc"
proof
  assume eq: "checksum_block (bs[i := b]) acc = checksum_block bs acc"
  define xs where "xs = take i bs"
  define ys where "ys = drop (Suc i) bs"
  define x where "x = bs ! i"
  define a where "a = checksum_block xs acc"
  have bs: "bs = xs @ x # ys"
    using i by (simp add: xs_def ys_def x_def id_take_nth_drop)
  have upd: "bs[i := b] = xs @ b # ys"
    using i by (simp add: xs_def ys_def upd_conv_take_nth_drop)
  have e1: "checksum_block (bs[i := b]) acc = checksum_block ys (a * 31337 + (ucast b XOR 0x5A))"
    by (simp add: upd checksum_block_append a_def)
  have "checksum_block (xs @ x # ys) acc = checksum_block ys (a * 31337 + (ucast x XOR 0x5A))"
    by (simp add: checksum_block_append a_def)
  then have e2: "checksum_block bs acc = checksum_block ys (a * 31337 + (ucast x XOR 0x5A))"
    using bs by simp
  define U where "U = a * 31337 + (ucast b XOR (0x5A :: u32))"
  define V where "V = a * 31337 + (ucast x XOR (0x5A :: u32))"
  from eq e1 e2 have "checksum_block ys U = checksum_block ys V"
    by (simp only: U_def V_def)
  then have "checksum_block ys U - checksum_block ys V = 0" by simp
  then have "(U - V) * 31337 ^ length ys = 0"
    by (simp only: checksum_block_diff)
  then have "U - V = 0" by (rule mult_31337_power_inj)
  then have "(ucast b XOR (0x5A :: u32)) = ucast x XOR 0x5A" by (simp add: U_def V_def)
  then have "(ucast b :: u32) = ucast x" by (rule xor_cancel)
  then have "b = x" by (rule ucast_8_32_inj)
  with b show False by (simp add: x_def)
qed

lemma checksum_update_neq:
  assumes "i < length bs" "b \<noteq> bs ! i"
  shows "checksum (bs[i := b]) \<noteq> checksum bs"
proof
  assume "checksum (bs[i := b]) = checksum bs"
  then have "checksum_block (bs[i := b]) CHECKSUM_INIT XOR CHECKSUM_FINAL
           = checksum_block bs CHECKSUM_INIT XOR CHECKSUM_FINAL"
    by (simp only: checksum_def checksum_start_def checksum_finish_def)
  then have "checksum_block (bs[i := b]) CHECKSUM_INIT = checksum_block bs CHECKSUM_INIT"
    by (rule xor_cancel)
  with checksum_block_update_neq [OF assms] show False by simp
qed

lemma to_le_length [simp]: "length (to_le n w) = n"
  by (induction n arbitrary: w) simp_all

lemma ucast_take_bit_byte:
  "8 \<le> k \<Longrightarrow> (ucast (take_bit k (w :: 'a::len word)) :: u8) = ucast w"
  by (rule bit_word_eqI) (auto simp: bit_simps)

lemma to_le_take_bit:
  "8 * n \<le> k \<Longrightarrow> to_le n (take_bit k (w :: 'a::len word)) = to_le n w"
proof (induction n arbitrary: k w)
  case 0
  then show ?case by simp
next
  case (Suc n)
  then have k: "8 \<le> k" "8 * n \<le> k - 8" by simp_all
  have "drop_bit 8 (take_bit k w) = take_bit (k - 8) (drop_bit 8 w)"
    by (simp add: drop_bit_take_bit)
  with Suc.IH [OF k(2)] k(1) show ?case
    by (simp add: ucast_take_bit_byte)
qed

lemma from_le_to_le:
  "from_le (to_le n (w :: 'a::len word)) = take_bit (8 * n) w"
proof (induction n arbitrary: w)
  case 0
  then show ?case by simp
next
  case (Suc n)
  have "(ucast (ucast w :: u8) :: 'a word) OR push_bit 8 (take_bit (8 * n) (drop_bit 8 w))
        = take_bit (8 * Suc n) w"
    by (rule bit_word_eqI) (auto simp: bit_simps)
  with Suc.IH show ?case by simp
qed

lemma to_le_from_le:
  "8 * length bs \<le> LENGTH('a) \<Longrightarrow> to_le (length bs) (from_le bs :: 'a::len word) = bs"
proof (induction bs)
  case Nil
  then show ?case by simp
next
  case (Cons b bs)
  then have l: "8 \<le> LENGTH('a)" "8 * length bs \<le> LENGTH('a) - 8" by simp_all
  define w :: "'a word" where "w = from_le bs"
  have h: "(ucast (ucast b OR push_bit 8 w) :: u8) = b"
    using l(1) by - (rule bit_word_eqI, auto simp: bit_simps dest: bit_imp_le_length)
  have t: "drop_bit 8 (ucast b OR push_bit 8 w) = take_bit (LENGTH('a) - 8) w"
    using l(1) by - (rule bit_word_eqI, auto simp: bit_simps dest: bit_imp_le_length)
  from Cons.IH l(2) have "to_le (length bs) w = bs" by (simp add: w_def)
  with h t l(2) show ?case
    by (simp add: w_def [symmetric] to_le_take_bit)
qed

lemma to_le_4:
  "to_le 4 w = [ucast w, ucast (drop_bit 8 w), ucast (drop_bit 16 w), ucast (drop_bit 24 w)]"
proof -
  have "(4 :: nat) = Suc (Suc (Suc (Suc 0)))" by simp
  then have "to_le 4 w = [ucast w, ucast (drop_bit 8 w), ucast (drop_bit 8 (drop_bit 8 w)),
                ucast (drop_bit 8 (drop_bit 8 (drop_bit 8 w)))]"
    by (simp only: to_le.simps)
  also have "\<dots> = [ucast w, ucast (drop_bit 8 w), ucast (drop_bit 16 w), ucast (drop_bit 24 w)]"
    by (simp add: drop_bit_drop_bit)
  finally show ?thesis .
qed

lemma to_le_3_4: "to_le 3 w = take 3 (to_le 4 w)"
proof -
  have "(3 :: nat) = Suc (Suc (Suc 0))" "(4 :: nat) = Suc (Suc (Suc (Suc 0)))" by simp_all
  then show ?thesis by (simp only: to_le.simps take_Suc_Cons take_0)
qed

lemma synced_iff: "synced w \<longleftrightarrow> take 3 (to_le 4 w) = [0xFF, 0x55, 0xAA]"
proof -
  have m: "w AND 0xffffff = take_bit 24 w"
    by (simp add: take_bit_eq_mask mask_eq_exp_minus_1)
  have c: "to_le 3 (0xAA55FF :: u32) = [0xFF, 0x55, 0xAA]"
    by (simp add: to_le_3_4 to_le_4)
  have d: "(from_le [0xFF, 0x55, 0xAA] :: u32) = 0xAA55FF"
    by simp
  show ?thesis
  proof
    assume "synced w"
    then have "take_bit 24 w = 0xAA55FF" by (simp add: synced_def m)
    then have "to_le 3 (take_bit 24 w) = [0xFF, 0x55, 0xAA]" by (simp only: c)
    then have "to_le 3 w = [0xFF, 0x55, 0xAA]"
      by (simp add: to_le_take_bit)
    then show "take 3 (to_le 4 w) = [0xFF, 0x55, 0xAA]"
      by (simp only: to_le_3_4)
  next
    assume "take 3 (to_le 4 w) = [0xFF, 0x55, 0xAA]"
    then have "from_le (to_le 3 w) = (from_le [0xFF, 0x55, 0xAA] :: u32)"
      by (simp only: to_le_3_4)
    then have "take_bit 24 w = 0xAA55FF"
      by (simp only: from_le_to_le d) simp
    then show "synced w" by (simp add: synced_def m)
  qed
qed

lemma to_le_sync_shift: "to_le 4 (sync_shift buf b) = tl (to_le 4 buf) @ [b]"
proof -
  have "(ucast (sync_shift buf b) :: u8) = ucast (drop_bit 8 buf)"
    unfolding sync_shift_def by (rule bit_word_eqI) (auto simp: bit_simps)
  moreover have "(ucast (drop_bit 8 (sync_shift buf b)) :: u8) = ucast (drop_bit 16 buf)"
    unfolding sync_shift_def by (rule bit_word_eqI) (auto simp: bit_simps)
  moreover have "(ucast (drop_bit 16 (sync_shift buf b)) :: u8) = ucast (drop_bit 24 buf)"
    unfolding sync_shift_def by (rule bit_word_eqI) (auto simp: bit_simps)
  moreover have "(ucast (drop_bit 24 (sync_shift buf b)) :: u8) = b"
    unfolding sync_shift_def
    by (rule bit_word_eqI) (auto simp: bit_simps dest: bit_imp_le_length)
  ultimately show ?thesis by (simp add: to_le_4)
qed

lemma sync_scan_frame:
  assumes "drop_bit 8 buf \<noteq> 0xAA55FF"
  shows "sync_scan (0xFF # 0x55 # 0xAA # t # rest) buf
         = (True, rest, from_le [0xFF, 0x55, 0xAA, t])"
proof -
  obtain x0 x1 x2 x3 where b: "to_le 4 buf = [x0, x1, x2, x3]"
    by (simp add: to_le_4)
  have nb: "[x1, x2, x3] \<noteq> [0xFF, 0x55, 0xAA]"
  proof
    assume a: "[x1, x2, x3] = [0xFF, 0x55, 0xAA]"
    have "to_le 3 (drop_bit 8 buf) = [x1, x2, x3]"
      using b by (simp add: to_le_3_4 to_le_4 drop_bit_drop_bit)
    then have "from_le (to_le 3 (drop_bit 8 buf)) = (from_le [0xFF, 0x55, 0xAA] :: u32)"
      by (simp only: a)
    then have "take_bit 24 (drop_bit 8 buf) = 0xAA55FF"
      by (simp only: from_le_to_le) simp
    moreover have "take_bit 24 (drop_bit 8 buf) = drop_bit 8 buf"
      by (rule bit_word_eqI) (auto simp: bit_simps dest: bit_imp_le_length)
    ultimately show False using assms by simp
  qed
  define S1 where "S1 = sync_shift buf 0xFF"
  define S2 where "S2 = sync_shift S1 0x55"
  define S3 where "S3 = sync_shift S2 0xAA"
  define S4 where "S4 = sync_shift S3 t"
  have l1: "to_le 4 S1 = [x1, x2, x3, 0xFF]" by (simp add: S1_def to_le_sync_shift b)
  have l2: "to_le 4 S2 = [x2, x3, 0xFF, 0x55]" by (simp add: S2_def to_le_sync_shift l1)
  have l3: "to_le 4 S3 = [x3, 0xFF, 0x55, 0xAA]" by (simp add: S3_def to_le_sync_shift l2)
  have l4: "to_le 4 S4 = [0xFF, 0x55, 0xAA, t]" by (simp add: S4_def to_le_sync_shift l3)
  have n1: "\<not> synced S1" using nb by (simp add: synced_iff l1)
  have n2: "\<not> synced S2" by (simp add: synced_iff l2)
  have n3: "\<not> synced S3" by (simp add: synced_iff l3)
  have y4: "synced S4" by (simp add: synced_iff l4)
  have "from_le (to_le 4 S4) = S4" by (simp add: from_le_to_le take_bit_word_eq_self)
  then have v: "S4 = from_le [0xFF, 0x55, 0xAA, t]" by (simp only: l4)
  show ?thesis
    using n1 n2 n3 y4 v
    by (simp add: S1_def [symmetric] S2_def [symmetric] S3_def [symmetric] S4_def [symmetric])
qed


subsection \<open>Requests that fail their checksum\<close>

text \<open>
  A valid MEMREAD request on the wire: 64 bytes that start with the little-endian type
  word \<open>REQ_MEMREAD\<close> (the sync bytes \<open>FF 55 AA\<close>, then \<open>02\<close>) and end with the checksum
  of the 60 bytes before it.
\<close>

definition valid_memread_frame :: "u8 list \<Rightarrow> bool" where
  "valid_memread_frame f \<longleftrightarrow>
     length f = REQ_SIZE \<and> take 4 f = to_le 4 REQ_MEMREAD \<and>
     from_le (drop (REQ_SIZE - 4) f) = checksum (take (REQ_SIZE - 4) f)"

lemma from_le_4_inj:
  assumes "length xs = 4" "length ys = 4" "(from_le xs :: u32) = from_le ys"
  shows "xs = ys"
proof -
  have "to_le (length xs) (from_le xs :: u32) = xs"
    by (rule to_le_from_le) (simp add: assms(1))
  moreover have "to_le (length ys) (from_le ys :: u32) = ys"
    by (rule to_le_from_le) (simp add: assms(2))
  ultimately show ?thesis using assms by simp
qed

lemma corrupted_checksum_mismatch:
  assumes len: "length f = 64"
      and ok: "from_le (drop 60 f) = checksum (take 60 f)"
      and i: "i < 64" and b: "b \<noteq> f ! i"
  shows "checksum (take 60 (f[i := b])) \<noteq> (from_le (take 4 (drop 60 (f[i := b]))) :: u32)"
proof (cases "i < 60")
  case True
  have "checksum ((take 60 f)[i := b]) \<noteq> checksum (take 60 f)"
    using True len b by (intro checksum_update_neq) simp_all
  moreover have "take 60 (f[i := b]) = (take 60 f)[i := b]"
    using True by (simp add: take_update_swap)
  moreover have "take 4 (drop 60 (f[i := b])) = drop 60 f"
    using True len by simp
  ultimately show ?thesis using ok by simp
next
  case False
  then have t: "take 60 (f[i := b]) = take 60 f" by simp
  have d: "take 4 (drop 60 (f[i := b])) = (drop 60 f)[i - 60 := b]"
    using False len by (simp add: drop_update_swap)
  have "(drop 60 f)[i - 60 := b] \<noteq> drop 60 f"
    using False len i b by (simp add: list_update_same_conv)
  moreover have "length ((drop 60 f)[i - 60 := b]) = 4" "length (drop 60 f) = 4"
    using len by simp_all
  ultimately have "(from_le ((drop 60 f)[i - 60 := b]) :: u32) \<noteq> from_le (drop 60 f)"
    using from_le_4_inj by blast
  then show ?thesis using ok by (simp add: t d)
qed

lemma to_le_from_le_4: "to_le 4 (from_le [a, b, c, d] :: u32) = [a, b, c, d]"
proof -
  have "to_le (length [a, b, c, d]) (from_le [a, b, c, d] :: u32) = [a, b, c, d]"
    by (rule to_le_from_le) simp
  moreover have "length [a, b, c, d] = 4" by simp
  ultimately show ?thesis by (simp only:)
qed


text \<open>The 36 bytes of the reply to a request of type \<open>rtype\<close> that failed its checksum.\<close>

definition csum_err_reply :: "u32 \<Rightarrow> u8 list" where
  "csum_err_reply rtype = reply_bytes (reply_zero\<lparr>r_type := rtype, r_status := ST_CSUMERR\<rparr>)"

lemma handle_frame_bad_checksum:
  assumes rx: "rx s iodev = body @ rest" and len: "length body = 60"
      and bad: "checksum (take 60 (to_le 4 (iodev_proxy_buffer s iodev) @ body))
                \<noteq> req_checksum (to_le 4 (iodev_proxy_buffer s iodev) @ body)"
  shows "handle_frame e iodev s =
           Inr (Continue, iodev_write iodev (csum_err_reply (iodev_proxy_buffer s iodev))
                            (s\<lparr>rx := (rx s)(iodev := rest)\<rparr>))"
  using assms
  by (simp add: handle_frame_def iodev_read_def Let_def REQ_SIZE_def csum_err_reply_def)


text \<open>A valid MEMREAD request for the four bytes at \<open>0x1000\<close>.\<close>

definition example_memread_frame :: "u8 list" where
  "example_memread_frame =
     [0xFF, 0x55, 0xAA, 0x02,
      0x00, 0x10, 0, 0, 0, 0, 0, 0,
      0x04, 0, 0, 0, 0, 0, 0, 0,
      0, 0, 0, 0, 0, 0, 0, 0, 0, 0,
      0, 0, 0, 0, 0, 0, 0, 0, 0, 0,
      0, 0, 0, 0, 0, 0, 0, 0, 0, 0,
      0, 0, 0, 0, 0, 0, 0, 0, 0, 0,
      0x3A, 0xFE, 0xB7, 0x74]"


text \<open>
  The cold entry polls the devices in turn, \<open>next_iodev\<close> being the step of its \<open>for\<close>
  loop. When only device \<open>d\<close> has input, the polling finds on \<open>d\<close> the sync that the scan of
  a re-entry finds there, and leaves the same state.
\<close>

definition next_iodev :: "nat \<Rightarrow> nat \<Rightarrow> nat" where
  "next_iodev n j = (if j + 1 = n then 0 else j + 1)"

lemma sync_cold_idle:
  assumes "j < n" and "rx s j = []"
  shows "sync_cold n j s = sync_cold n (next_iodev n j) s"
  using assms
  by (simp add: sync_cold.simps [of n j s] iodev_handle_events_def iodev_can_read_def
      next_iodev_def)

lemma sync_cold_skip:
  assumes d: "d < n" and idle: "\<forall>j<n. j \<noteq> d \<longrightarrow> rx s j = []"
  shows "j < n \<Longrightarrow> sync_cold n j s = sync_cold n d s"
proof (induction "if j \<le> d then d - j else d + n - j" arbitrary: j)
  case 0
  then have "j = d" using d by (auto split: if_splits)
  then show ?case by simp
next
  case (Suc k)
  then have ne: "j \<noteq> d" by (auto split: if_splits)
  with idle Suc.prems have e: "rx s j = []" by simp
  have nj: "next_iodev n j < n" using Suc.prems by (auto simp: next_iodev_def)
  have "k = (if next_iodev n j \<le> d then d - next_iodev n j else d + n - next_iodev n j)"
    using Suc.hyps(2) Suc.prems d ne by (auto simp: next_iodev_def split: if_splits)
  from Suc.hyps(1) [OF this nj] sync_cold_idle [OF Suc.prems e] show ?case by simp
qed

lemma sync_cold_scan:
  assumes d: "d < n"
  shows "\<forall>j<n. j \<noteq> d \<longrightarrow> rx s j = [] \<Longrightarrow>
         sync_scan (rx s d) (iodev_proxy_buffer s d) = (True, rest, B) \<Longrightarrow>
         sync_cold n d s = Some (d, s\<lparr>rx := (rx s)(d := rest),
                                       iodev_proxy_buffer := (iodev_proxy_buffer s)(d := B)\<rparr>)"
proof (induction "rx s d" arbitrary: s)
  case Nil
  then show ?case by simp
next
  case (Cons b bs)
  define buf where "buf = sync_shift (iodev_proxy_buffer s d) b"
  define s3 where "s3 = s\<lparr>rx := (rx s)(d := bs),
      iodev_proxy_buffer := (iodev_proxy_buffer s)(d := buf)\<rparr>"
  have rxd: "rx s d = b # bs" using Cons.hyps(2) by simp
  have step: "sync_cold n d s
      = (if synced buf then Some (d, s3) else sync_cold n (next_iodev n d) s3)"
    using d
    by (simp add: sync_cold.simps [of n d s] iodev_handle_events_def iodev_can_read_def
        iodev_read_def rxd Let_def buf_def s3_def next_iodev_def)
  show ?case
  proof (cases "synced buf")
    case True
    with Cons.prems(2) have "rest = bs" "B = buf"
      by (simp_all add: rxd buf_def)
    with step True show ?thesis by (simp add: s3_def)
  next
    case False
    with Cons.prems(2) have scan: "sync_scan (rx s3 d) (iodev_proxy_buffer s3 d) = (True, rest, B)"
      by (simp add: rxd buf_def s3_def)
    have idle: "\<forall>j<n. j \<noteq> d \<longrightarrow> rx s3 j = []"
      using Cons.prems(1) by (simp add: s3_def)
    have bs: "bs = rx s3 d" by (simp add: s3_def)
    have nd: "next_iodev n d < n" using d by (auto simp: next_iodev_def)
    from Cons.hyps(1) [OF bs idle scan]
    have "sync_cold n d s3 = Some (d, s\<lparr>rx := (rx s)(d := rest),
                                       iodev_proxy_buffer := (iodev_proxy_buffer s)(d := B)\<rparr>)"
      by (simp add: s3_def)
    with step False sync_cold_skip [OF d idle nd] show ?thesis by simp
  qed
qed

lemma sync_cold_warm:
  assumes d: "d < n" and idle: "\<forall>j<n. j \<noteq> d \<longrightarrow> rx s j = []"
    and warm: "sync_warm d s = (True, s1)"
  shows "sync_cold n 0 s = Some (d, s1)"
proof -
  obtain ok rest B where sc: "sync_scan (rx s d) (iodev_proxy_buffer s d) = (ok, rest, B)"
    by (metis prod_cases3)
  with warm have ok: "ok" and s1: "s1 = s\<lparr>rx := (rx s)(d := rest),
                 iodev_proxy_buffer := (iodev_proxy_buffer s)(d := B)\<rparr>"
    by (simp_all add: sync_warm_def)
  have z: "0 < n" using d by simp
  from sync_cold_skip [OF d idle z] sync_cold_scan [OF d idle sc [unfolded ok [THEN eqTrueI]]]
  show ?thesis by (simp add: s1)
qed

text \<open>
  C8, as the code has it. Take a valid 64-byte MEMREAD request and change any single byte
  other than the three sync bytes (wire offsets 0 to 2). Let the corrupted frame be what
  device \<open>iodev\<close> delivers next, its sync buffer not holding a pending sync sequence from
  the bytes before the frame. Then the round of the proxy loop that reads the frame ends
  with \<open>Continue\<close>, has written exactly one thing, the reply with status \<open>CSUMERR\<close> and the
  frame's type word, and nothing after it; it has consumed the frame and left the bound
  device and memory as they were; and the loop goes on from that state. This holds for
  the round of a re-entry on \<open>iodev\<close>, and for the round of a cold entry when \<open>iodev\<close> is
  the only device with input.
\<close>

theorem corrupted_memread_rejected:
  assumes valid: "valid_memread_frame f"
      and i: "3 \<le> i" "i < REQ_SIZE"
      and b: "b \<noteq> f ! i"
      and rx: "rx s iodev = f[i := b] @ rest"
      and buf: "drop_bit 8 (iodev_proxy_buffer s iodev) \<noteq> 0xAA55FF"
  shows "\<exists>s'. uartproxy_round e True iodev s = Some (iodev, Inr (Continue, s'))
           \<and> uartproxy_loop e True iodev s = uartproxy_loop e True iodev s'
           \<and> (iodev < IODEV_MAX e \<and> (\<forall>d<IODEV_MAX e. d \<noteq> iodev \<longrightarrow> rx s d = []) \<longrightarrow>
                uartproxy_round e False j s = Some (iodev, Inr (Continue, s'))
              \<and> uartproxy_loop e False j s = uartproxy_loop e False iodev s')
           \<and> trace s' = trace s @ [Iodev_write iodev (csum_err_reply (from_le (take 4 (f[i := b]))))]
           \<and> rx s' iodev = rest
           \<and> uartproxy_iodev s' = uartproxy_iodev s \<and> mem s' = mem s"
proof -
  define f' where "f' = f[i := b]"
  define t where "t = f' ! 3"
  define body where "body = drop 4 f'"
  define T :: u32 where "T = from_le [0xFF, 0x55, 0xAA, t]"
  from valid have len: "length f = 64" and ty: "take 4 f = to_le 4 REQ_MEMREAD"
    and ok: "from_le (drop 60 f) = checksum (take 60 f)"
    by (simp_all add: valid_memread_frame_def REQ_SIZE_def)
  have len': "length f' = 64" by (simp add: f'_def len)
  have "take 3 f' = take 3 (take 4 f)" using i(1) by (simp add: f'_def)
  also have "\<dots> = [0xFF, 0x55, 0xAA]"
    by (simp add: ty to_le_4 REQ_MEMREAD_def)
  finally have t3: "take 3 f' = [0xFF, 0x55, 0xAA]" .
  have "f' = take 3 f' @ f' ! 3 # drop (Suc 3) f'"
    using len' by (intro id_take_nth_drop) simp
  then have shape: "f' = 0xFF # 0x55 # 0xAA # t # body"
    by (simp add: t3 t_def body_def)
  have blen: "length body = 60" by (simp add: body_def len')
  have scan: "sync_scan (rx s iodev) (iodev_proxy_buffer s iodev) = (True, body @ rest, T)"
    using sync_scan_frame [OF buf, of t "body @ rest"] shape
    by (simp add: rx f'_def [symmetric] T_def)
  define s1 where "s1 = s\<lparr>rx := (rx s)(iodev := body @ rest),
      iodev_proxy_buffer := (iodev_proxy_buffer s)(iodev := T)\<rparr>"
  have warm: "sync_warm iodev s = (True, s1)"
    by (simp add: sync_warm_def scan s1_def)
  have tT: "to_le 4 T = [0xFF, 0x55, 0xAA, t]"
    unfolding T_def by (rule to_le_from_le_4)
  have req: "to_le 4 (iodev_proxy_buffer s1 iodev) @ body = f'"
    by (simp add: s1_def tT shape [symmetric])
  have "checksum (take 60 f') \<noteq> (from_le (take 4 (drop 60 f')) :: u32)"
    unfolding f'_def using i(2) b
    by (intro corrupted_checksum_mismatch [OF len ok]) (simp_all add: REQ_SIZE_def)
  then have bad: "checksum (take 60 (to_le 4 (iodev_proxy_buffer s1 iodev) @ body))
                \<noteq> req_checksum (to_le 4 (iodev_proxy_buffer s1 iodev) @ body)"
    unfolding req by (simp add: req_checksum_def REQ_SIZE_def)
  have rx1: "rx s1 iodev = body @ rest" by (simp add: s1_def)
  have T4: "T = from_le (take 4 f')"
    by (subst shape) (simp add: T_def)
  have b1: "iodev_proxy_buffer s1 iodev = T" by (simp add: s1_def)
  define s2 where "s2 = iodev_write iodev (csum_err_reply (iodev_proxy_buffer s1 iodev))
                            (s1\<lparr>rx := (rx s1)(iodev := rest)\<rparr>)"
  have hf: "handle_frame e iodev s1 = Inr (Continue, s2)"
    unfolding s2_def by (rule handle_frame_bad_checksum [OF rx1 blen bad])
  have round: "uartproxy_round e True iodev s = Some (iodev, Inr (Continue, s2))"
    by (simp add: uartproxy_round_def warm hf)
  have loop: "uartproxy_loop e True iodev s = uartproxy_loop e True iodev s2"
    by (simp add: uartproxy_loop.simps [of e True iodev s] round)
  have cold: "uartproxy_round e False j s = Some (iodev, Inr (Continue, s2))
              \<and> uartproxy_loop e False j s = uartproxy_loop e False iodev s2"
    if c: "iodev < IODEV_MAX e \<and> (\<forall>d<IODEV_MAX e. d \<noteq> iodev \<longrightarrow> rx s d = [])"
  proof -
    from c have d: "iodev < IODEV_MAX e"
      and idle: "\<forall>d<IODEV_MAX e. d \<noteq> iodev \<longrightarrow> rx s d = []"
      by simp_all
    have r: "uartproxy_round e False j s = Some (iodev, Inr (Continue, s2))"
      by (simp add: uartproxy_round_def sync_cold_warm [OF d idle warm] hf)
    then have "uartproxy_loop e False j s = uartproxy_loop e False iodev s2"
      by (simp add: uartproxy_loop.simps [of e False j s])
    with r show ?thesis by simp
  qed
  have "trace s2 = trace s @ [Iodev_write iodev (csum_err_reply (from_le (take 4 (f[i := b]))))]"
    by (simp add: s2_def b1 T4 f'_def iodev_write_def s1_def)
  moreover have "rx s2 iodev = rest" "uartproxy_iodev s2 = uartproxy_iodev s" "mem s2 = mem s"
    by (simp_all add: s2_def iodev_write_def s1_def)
  ultimately show ?thesis using round loop cold by blast
qed

text \<open>
  A machine on which only device 0, the bound device, has input: a valid MEMREAD request
  with byte 5 changed.
\<close>

definition example_corrupt_machine :: machine where
  "example_corrupt_machine =
     example_machine (\<lambda>d. if d = 0 then example_memread_frame[5 := 0] else [])"

theorem corrupted_memread_rejected_witness:
  "\<exists>s'. uartproxy_round example_env True 0 example_corrupt_machine
          = Some (0, Inr (Continue, s'))
       \<and> uartproxy_round example_env False 2 example_corrupt_machine
          = Some (0, Inr (Continue, s'))
       \<and> trace s' = trace example_corrupt_machine @
           [Iodev_write 0 (csum_err_reply (from_le (take 4 (example_memread_frame[5 := 0]))))]
       \<and> rx s' 0 = []
       \<and> uartproxy_iodev s' = uartproxy_iodev example_corrupt_machine
       \<and> mem s' = mem example_corrupt_machine"
proof -
  have v: "valid_memread_frame example_memread_frame" by code_simp
  have i: "3 \<le> (5 :: nat)" "5 < REQ_SIZE" by (simp_all add: REQ_SIZE_def)
  have b: "0 \<noteq> example_memread_frame ! 5" by (simp add: example_memread_frame_def)
  have rx: "rx example_corrupt_machine 0 = example_memread_frame[5 := 0] @ []"
    by (simp add: example_corrupt_machine_def example_machine_def)
  have buf: "drop_bit 8 (iodev_proxy_buffer example_corrupt_machine 0) \<noteq> 0xAA55FF"
    by (simp add: example_corrupt_machine_def example_machine_def)
  have idle: "0 < IODEV_MAX example_env
              \<and> (\<forall>d<IODEV_MAX example_env. d \<noteq> 0 \<longrightarrow> rx example_corrupt_machine d = [])"
    by (simp add: example_env_def example_corrupt_machine_def example_machine_def)
  from corrupted_memread_rejected [OF v i b rx buf, where e = example_env and j = 2] idle
  show ?thesis by blast
qed

text \<open>
  The claim fails when the corrupted byte is a sync byte: with the first byte \<open>FF\<close>
  replaced by \<open>00\<close> the frame is never recognised, the scan runs through it, the read
  fails at the end of the data, and the round returns \<open>-1\<close> without any reply.
\<close>

theorem corrupted_sync_byte_counterexample:
  "valid_memread_frame example_memread_frame
   \<and> map_option (\<lambda>(d, r). (d, case r of Inl f \<Rightarrow> None | Inr (oc, s') \<Rightarrow> Some (oc, trace s')))
        (uartproxy_round example_env True 0
           (example_machine (\<lambda>d. example_memread_frame[0 := 0])))
     = Some (0, Some (Return (- 1), []))"
  by code_simp

subsection \<open>The bound device\<close>

lemma sync_cold_frame_aux:
  assumes "sync_cold n iodev s = Some y"
  shows "uartproxy_iodev (snd y) = uartproxy_iodev s \<and> trace (snd y) = trace s
         \<and> mem (snd y) = mem s"
  using assms
proof (induct rule: sync_cold.raw_induct [rotated, consumes 1, case_names step])
  case (step sync_cold n iodev s y)
  from step(2) show ?case
    by (auto simp: Let_def iodev_handle_events_def iodev_read_def
        split: if_splits dest!: step(1))
qed

lemma sync_cold_frame:
  "sync_cold n iodev s = Some (d, s1) \<Longrightarrow>
   uartproxy_iodev s1 = uartproxy_iodev s \<and> trace s1 = trace s \<and> mem s1 = mem s"
  using sync_cold_frame_aux [of n iodev s "(d, s1)"] by simp


text \<open>
  The test \<open>uartproxy_run\<close> makes before it binds the device: the \<open>REQ_SIZE - 4\<close> bytes
  after the type word are there, and the checksum over type and payload equals the
  frame's last word.
\<close>

definition frame_accepted :: "nat \<Rightarrow> machine \<Rightarrow> bool" where
  "frame_accepted d s \<longleftrightarrow>
     (let body = take (REQ_SIZE - 4) (rx s d);
          request = to_le 4 (iodev_proxy_buffer s d) @ body
      in length body = REQ_SIZE - 4 \<and>
         checksum (take (REQ_SIZE - 4) request) = req_checksum request)"

lemma write8_skip_iodev [simp]: "uartproxy_iodev (write8_skip a v s) = uartproxy_iodev s"
  by (simp add: write8_skip_def split: option.splits)

lemma memwrite_probe_iodev [simp]:
  "uartproxy_iodev (memwrite_probe addr sz s) = uartproxy_iodev s"
  by (simp add: memwrite_probe_def Let_def)

lemma uartproxy_memread_iodev:
  "uartproxy_memread addr sz reply s = (reply', s') \<Longrightarrow> uartproxy_iodev s' = uartproxy_iodev s"
  by (auto simp: uartproxy_memread_def Let_def checksum_guarded_def
      split: if_splits option.splits prod.splits)

lemma uartproxy_memwrite_iodev:
  "uartproxy_memwrite iodev addr sz c reply s = Inr (reply', s') \<Longrightarrow>
   uartproxy_iodev s' = uartproxy_iodev s"
  by (auto simp: uartproxy_memwrite_def Let_def iodev_read_def bind_res_def
      split: if_splits option.splits prod.splits sum.splits)

lemma uartproxy_dispatch_iodev:
  "uartproxy_dispatch e iodev request reply s = Inr (reply', running, ret, s') \<Longrightarrow>
   uartproxy_iodev s' = uartproxy_iodev s"
  by (auto simp: uartproxy_dispatch_def Let_def bind_res_def
      dest: uartproxy_memread_iodev uartproxy_memwrite_iodev
      split: if_splits prod.splits sum.splits)

lemma handle_frame_iodev:
  assumes "handle_frame e d s1 = Inr (oc, s2)"
  shows "(frame_accepted d s1 \<and> uartproxy_iodev s2 = d)
       \<or> (\<not> frame_accepted d s1 \<and> uartproxy_iodev s2 = uartproxy_iodev s1)"
proof (cases "frame_accepted d s1")
  case False
  with assms show ?thesis
    by (auto simp: handle_frame_def frame_accepted_def Let_def iodev_read_def iodev_write_def
        split: if_splits)
next
  case True
  define request where "request = to_le 4 (iodev_proxy_buffer s1 d) @ take (REQ_SIZE - 4) (rx s1 d)"
  define s1' where "s1' = s1\<lparr>rx := (rx s1)(d := drop (REQ_SIZE - 4) (rx s1 d)), uartproxy_iodev := d\<rparr>"
  from True assms obtain reply1 running ret s3 s5 where
    disp: "uartproxy_dispatch e d request
             (reply_zero\<lparr>r_type := iodev_proxy_buffer s1 d, r_status := ST_OK\<rparr>) s1'
           = Inr (reply1, running, ret, s3)"
    and fin: "uartproxy_iodev s2 = uartproxy_iodev s3"
    unfolding handle_frame_def frame_accepted_def Let_def iodev_read_def
    by (auto simp: request_def s1'_def bind_res_def iodev_write_def
        split: if_splits sum.splits prod.splits option.splits)
  from uartproxy_dispatch_iodev [OF disp] fin True show ?thesis
    by (simp add: s1'_def)
qed

lemma handle_frame_rejected:
  assumes len: "REQ_SIZE - 4 \<le> length (rx s1 d)" and bad: "\<not> frame_accepted d s1"
  shows "handle_frame e d s1 =
           Inr (Continue, iodev_write d (csum_err_reply (iodev_proxy_buffer s1 d))
                            (s1\<lparr>rx := (rx s1)(d := drop (REQ_SIZE - 4) (rx s1 d))\<rparr>))"
  using assms
  by (simp add: handle_frame_def frame_accepted_def Let_def iodev_read_def csum_err_reply_def)

lemma send_event_trace:
  "\<exists>hdr csum. trace (uartproxy_send_event t data s) =
     trace s @ [Iodev_queue (uartproxy_iodev s) hdr, Iodev_queue (uartproxy_iodev s) data,
                Iodev_write (uartproxy_iodev s) csum]"
  by (simp add: uartproxy_send_event_def Let_def iodev_write_def iodev_queue_def)


text \<open>
  C10. On a cold entry, let the sync be found on device \<open>d\<close>, in state \<open>s1\<close>, and let the
  round end in state \<open>s2\<close>. If the round changed \<open>uartproxy_iodev\<close>, the frame passed the
  checksum test and the new value is \<open>d\<close>. If the frame is complete but fails the test,
  the round continues, \<open>uartproxy_iodev\<close> is what it was before the round, the only thing
  written is the \<open>CSUMERR\<close> reply, on \<open>d\<close>, and an event sent afterwards goes to the
  device bound before, with all three of its parts.
\<close>

theorem iodev_rebound_only_after_checksum:
  assumes sync: "sync_cold (IODEV_MAX e) 0 s = Some (d, s1)"
      and round: "uartproxy_round e False iodev s = Some (d', Inr (oc, s2))"
  shows "d' = d
       \<and> (uartproxy_iodev s2 \<noteq> uartproxy_iodev s \<longrightarrow>
            frame_accepted d s1 \<and> uartproxy_iodev s2 = d)
       \<and> (REQ_SIZE - 4 \<le> length (rx s1 d) \<and> \<not> frame_accepted d s1 \<longrightarrow>
            oc = Continue
          \<and> uartproxy_iodev s2 = uartproxy_iodev s
          \<and> trace s2 = trace s @ [Iodev_write d (csum_err_reply (iodev_proxy_buffer s1 d))]
          \<and> (\<exists>hdr csum. trace (uartproxy_send_event t data s2) =
                trace s2 @ [Iodev_queue (uartproxy_iodev s) hdr,
                            Iodev_queue (uartproxy_iodev s) data,
                            Iodev_write (uartproxy_iodev s) csum]))"
proof -
  from round sync have "d' = d \<and> handle_frame e d s1 = Inr (oc, s2)"
    by (auto simp: uartproxy_round_def)
  then have d: "d' = d" and hf: "handle_frame e d s1 = Inr (oc, s2)" by simp_all
  from sync_cold_frame [OF sync]
  have keep: "uartproxy_iodev s1 = uartproxy_iodev s" "trace s1 = trace s" by simp_all
  have a: "frame_accepted d s1 \<and> uartproxy_iodev s2 = d"
    if "uartproxy_iodev s2 \<noteq> uartproxy_iodev s"
    using handle_frame_iodev [OF hf] that keep by auto
  have b: "oc = Continue \<and> uartproxy_iodev s2 = uartproxy_iodev s
          \<and> trace s2 = trace s @ [Iodev_write d (csum_err_reply (iodev_proxy_buffer s1 d))]
          \<and> (\<exists>hdr csum. trace (uartproxy_send_event t data s2) =
                trace s2 @ [Iodev_queue (uartproxy_iodev s) hdr,
                            Iodev_queue (uartproxy_iodev s) data,
                            Iodev_write (uartproxy_iodev s) csum])"
    if "REQ_SIZE - 4 \<le> length (rx s1 d) \<and> \<not> frame_accepted d s1"
  proof -
    from that hf handle_frame_rejected [of s1 d e]
    have s2: "s2 = iodev_write d (csum_err_reply (iodev_proxy_buffer s1 d))
                            (s1\<lparr>rx := (rx s1)(d := drop (REQ_SIZE - 4) (rx s1 d))\<rparr>)"
      and oc: "oc = Continue" by simp_all
    have i2: "uartproxy_iodev s2 = uartproxy_iodev s"
      by (simp add: s2 iodev_write_def keep)
    have t2: "trace s2 = trace s @ [Iodev_write d (csum_err_reply (iodev_proxy_buffer s1 d))]"
      by (simp add: s2 iodev_write_def keep)
    from send_event_trace [of t data s2] oc i2 t2 show ?thesis by simp
  qed
  from d a b show ?thesis by blast
qed

text \<open>A machine bound to device 0 that receives a corrupted request on device 1.\<close>

definition example_cold_machine :: machine where
  "example_cold_machine =
     example_machine (\<lambda>d. if d = 1 then example_memread_frame[5 := 0] else [])"

theorem iodev_rebound_only_after_checksum_witness:
  "\<exists>s1 s2. sync_cold (IODEV_MAX example_env) 0 example_cold_machine = Some (1, s1)
     \<and> uartproxy_round example_env False 0 example_cold_machine = Some (1, Inr (Continue, s2))
     \<and> uartproxy_iodev example_cold_machine = 0
     \<and> uartproxy_iodev s2 = 0
     \<and> trace s2 = trace example_cold_machine @
                     [Iodev_write 1 (csum_err_reply (iodev_proxy_buffer s1 1))]"
proof -
  have "case sync_cold (IODEV_MAX example_env) 0 example_cold_machine of
          None \<Rightarrow> False
        | Some (d, s1) \<Rightarrow> d = 1 \<and> REQ_SIZE - 4 \<le> length (rx s1 d) \<and> \<not> frame_accepted d s1"
    by code_simp
  then obtain s1 where sync: "sync_cold (IODEV_MAX example_env) 0 example_cold_machine = Some (1, s1)"
    and len: "REQ_SIZE - 4 \<le> length (rx s1 1)" and bad: "\<not> frame_accepted 1 s1"
    by (auto split: option.splits)
  have "case uartproxy_round example_env False 0 example_cold_machine of
          Some (d, Inr (oc, s2)) \<Rightarrow> True | _ \<Rightarrow> False"
    by code_simp
  then obtain d' r where
    r: "uartproxy_round example_env False 0 example_cold_machine = Some (d', r)"
    and nf: "\<forall>f. r \<noteq> Inl f"
    by (auto split: option.splits sum.splits)
  from nf obtain oc s2 where "r = Inr (oc, s2)" by (cases r) auto
  with r have
    round: "uartproxy_round example_env False 0 example_cold_machine = Some (d', Inr (oc, s2))"
    by simp
  have z: "uartproxy_iodev example_cold_machine = 0"
    by (simp add: example_cold_machine_def example_machine_def)
  from iodev_rebound_only_after_checksum [OF sync round, of 0 "[]"] len bad
  have "d' = 1 \<and> oc = Continue
      \<and> uartproxy_iodev s2 = uartproxy_iodev example_cold_machine
      \<and> trace s2 = trace example_cold_machine @
                     [Iodev_write 1 (csum_err_reply (iodev_proxy_buffer s1 1))]"
    by blast
  with sync round z show ?thesis
    by (intro exI [of _ s1] exI [of _ s2]) simp
qed

section \<open>Data-abort handler\<close>

text \<open>
  Modelled from the spec: constants of headers that are not part of the sources at hand.
  \<open>SCTLR_M\<close>, \<open>SPSR_M\<close>, \<open>PAR_F\<close>, \<open>PAR_PA\<close> and \<open>ESR_ISS_DABORT_WnR\<close> have their
  architectural positions; the MMIO event flags follow section 6.2 (bits 1:0 the width,
  bit 2 the write flag); \<open>EVT_MMIOTRACE\<close> is the event type of an MMIO trace.
\<close>

definition SCTLR_M :: u64 where "SCTLR_M = BIT 0"
definition SPSR_M :: u64 where "SPSR_M = GENMASK 4 0"
definition PAR_F :: u64 where "PAR_F = BIT 0"
definition PAR_PA :: u64 where "PAR_PA = GENMASK 51 12"
definition ESR_ISS_DABORT_WnR :: u64 where "ESR_ISS_DABORT_WnR = BIT 6"
definition MMIO_EVT_WIDTH :: u64 where "MMIO_EVT_WIDTH = GENMASK 1 0"
definition MMIO_EVT_WRITE :: u64 where "MMIO_EVT_WRITE = BIT 2"
definition EVT_MMIOTRACE :: u16 where "EVT_MMIOTRACE = 1"

text \<open>
  \<open>hv_translate(addr, s1, w)\<close>: \<open>PAR_EL1\<close> is saved before the translation instruction
  and restored after it, so the state is left as it was; the result 0 stands for a fault.
\<close>

definition hv_translate :: "env \<Rightarrow> u64 \<Rightarrow> bool \<Rightarrow> bool \<Rightarrow> machine \<Rightarrow> u64" where
  "hv_translate e addr s1 w s =
     (if SCTLR_EL12 s AND SCTLR_M = 0 then addr
      else
        let el = drop_bit 2 (FIELD_GET SPSR_M (SPSR_EL2 s));
            par = at_insn e s1 w (el = 0) addr
        in if par AND PAR_F \<noteq> 0 then 0
           else (par AND PAR_PA) OR (addr AND 0xfff))"

text \<open>
  \<open>read8/16/32/64\<close> and \<open>write8/16/32/64\<close>, selected by the width code 0 to 3: an access
  of \<open>2 ^ width\<close> bytes, little-endian. The handler passes its 64-bit \<open>val\<close> to a store
  whose parameter is a \<open>u8\<close>, \<open>u16\<close>, \<open>u32\<close> or \<open>u64\<close>, so the value stored is \<open>val\<close>
  truncated to \<open>8 * 2 ^ width\<close> bits. A store is recorded in the trace with the value
  stored.
\<close>

definition read_mem :: "u64 \<Rightarrow> u64 \<Rightarrow> machine \<Rightarrow> fault + u64" where
  "read_mem width paddr s =
     (case read_bytes (mem s) paddr (2 ^ unat width) of
        None \<Rightarrow> Inl Bus_fault
      | Some bs \<Rightarrow> Inr (from_le bs))"

definition write_mem :: "u64 \<Rightarrow> u64 \<Rightarrow> u64 \<Rightarrow> machine \<Rightarrow> fault + machine" where
  "write_mem width paddr val s =
     (let v = take_bit (8 * 2 ^ unat width) val in
      bind_res (store_bytes paddr (to_le (2 ^ unat width) v) (mem s))
        (\<lambda>m. Inr (s\<lparr>mem := m, trace := trace s @ [Mem_write paddr width v]\<rparr>)))"

text \<open>The bytes of \<open>struct hv_evt_mmiotrace {flags, reserved, pc, addr, data}\<close>.\<close>

definition mmiotrace_bytes :: "u64 \<Rightarrow> u64 \<Rightarrow> u64 \<Rightarrow> u64 \<Rightarrow> u8 list" where
  "mmiotrace_bytes flags pc addr data =
     to_le 4 (ucast flags :: u32) @ to_le 4 (0 :: u32) @ to_le 8 pc @ to_le 8 addr @ to_le 8 data"

text \<open>
  \<open>uartproxy_send_event(EVT_MMIOTRACE, &evt, sizeof(evt))\<close>, followed by the flush when
  the entry asks for a synchronous trace.
\<close>

definition send_mmiotrace :: "u64 \<Rightarrow> u64 \<Rightarrow> u64 \<Rightarrow> u64 \<Rightarrow> u64 \<Rightarrow> machine \<Rightarrow> machine" where
  "send_mmiotrace pte flags pc addr data s =
     (let s1 = uartproxy_send_event EVT_MMIOTRACE (mmiotrace_bytes flags pc addr data) s
      in if pte AND SPTE_SYNC_TRACE \<noteq> 0 then iodev_flush (uartproxy_iodev s1) s1 else s1)"

text \<open>
  The \<open>switch\<close> of the write path. The result is \<open>False\<close> where the handler returns
  \<open>false\<close> from inside the switch.
\<close>

definition dabort_store ::
  "env \<Rightarrow> regs \<Rightarrow> u64 \<Rightarrow> u64 \<Rightarrow> u64 \<Rightarrow> u64 \<Rightarrow> u64 \<Rightarrow> u64 \<Rightarrow> machine \<Rightarrow>
   fault + (bool \<times> regs \<times> machine)" where
  "dabort_store e regs pte ipa paddr target val width s =
     (let ty = FIELD_GET SPTE_TYPE pte in
      if ty = SPTE_PROXY_HOOK_R then
        bind_res (write_mem width ipa val s) (\<lambda>s1. Inr (True, regs, s1))
      else if ty = SPTE_MAP then
        bind_res (write_mem width paddr val s) (\<lambda>s1. Inr (True, regs, s1))
      else if ty = SPTE_HOOK then
        (let (ok, val1) = hv_hook e target ipa val True width;
             s1 = s\<lparr>trace := trace s @ [Hook_call target ipa val True width]\<rparr>
         in Inr (ok, regs, s1))
      else if ty = SPTE_PROXY_HOOK_RW \<or> ty = SPTE_PROXY_HOOK_W then
        (let flags = ucast (FIELD_PREP MMIO_EVT_WIDTH width OR MMIO_EVT_WRITE) :: u32;
             ident = FIELD_GET PTE_TARGET_MASK_L4 pte;
             (regs1, data) = hv_exc_proxy e regs (flags, ident, ipa, val);
             s1 = s\<lparr>trace := trace s @ [Exc_proxy flags ident ipa val]\<rparr>
         in Inr (True, regs1, s1))
      else Inr (False, regs, s))"

text \<open>The \<open>switch\<close> of the read path, which also yields the value read.\<close>

definition dabort_load ::
  "env \<Rightarrow> regs \<Rightarrow> u64 \<Rightarrow> u64 \<Rightarrow> u64 \<Rightarrow> u64 \<Rightarrow> u64 \<Rightarrow> machine \<Rightarrow>
   fault + (bool \<times> regs \<times> u64 \<times> machine)" where
  "dabort_load e regs pte ipa paddr target width s =
     (let ty = FIELD_GET SPTE_TYPE pte in
      if ty = SPTE_PROXY_HOOK_W then
        bind_res (read_mem width ipa s) (\<lambda>v. Inr (True, regs, v, s))
      else if ty = SPTE_MAP then
        bind_res (read_mem width paddr s) (\<lambda>v. Inr (True, regs, v, s))
      else if ty = SPTE_HOOK then
        (let (ok, val1) = hv_hook e target ipa 0 False width;
             s1 = s\<lparr>trace := trace s @ [Hook_call target ipa 0 False width]\<rparr>
         in Inr (ok, regs, val1, s1))
      else if ty = SPTE_PROXY_HOOK_RW \<or> ty = SPTE_PROXY_HOOK_R then
        (let flags = ucast (FIELD_PREP MMIO_EVT_WIDTH width) :: u32;
             ident = FIELD_GET PTE_TARGET_MASK_L4 pte;
             (regs1, data) = hv_exc_proxy e regs (flags, ident, ipa, 0);
             s1 = s\<lparr>trace := trace s @ [Exc_proxy flags ident ipa 0]\<rparr>
         in Inr (True, regs1, data, s1))
      else Inr (False, regs, 0, s))"

text \<open>\<open>msr(ELR_EL2, elr + 4)\<close>\<close>

definition advance_elr :: "u64 \<Rightarrow> machine \<Rightarrow> machine" where
  "advance_elr elr s = s\<lparr>ELR_EL2 := elr + 4, trace := trace s @ [Msr_ELR (elr + 4)]\<rparr>"

text \<open>The write branch of \<open>hv_handle_dabort\<close>, from \<open>emulate_store\<close> to the return.\<close>

definition dabort_write ::
  "env \<Rightarrow> regs \<Rightarrow> u32 \<Rightarrow> u64 \<Rightarrow> u64 \<Rightarrow> u64 \<Rightarrow> u64 \<Rightarrow> u64 \<Rightarrow> machine \<Rightarrow>
   fault + (bool \<times> regs \<times> machine)" where
  "dabort_write e regs insn pte ipa paddr target elr s =
     (let (ok, regs1, val, width) = emulate_store regs insn 0 in
      if \<not> ok then Inr (False, regs1, s)
      else
        let s1 = (if pte AND SPTE_TRACE_WRITE \<noteq> 0
                  then send_mmiotrace pte (FIELD_PREP MMIO_EVT_WIDTH width OR MMIO_EVT_WRITE)
                         elr ipa val s
                  else s)
        in bind_res (dabort_store e regs1 pte ipa paddr target val width s1)
             (\<lambda>(ok1, regs2, s2).
                if \<not> ok1 then Inr (False, regs2, s2)
                else Inr (True, regs2, advance_elr elr s2)))"

text \<open>The read branch: first decode pass, access, trace, second decode pass.\<close>

definition dabort_read ::
  "env \<Rightarrow> regs \<Rightarrow> u32 \<Rightarrow> u64 \<Rightarrow> u64 \<Rightarrow> u64 \<Rightarrow> u64 \<Rightarrow> u64 \<Rightarrow> machine \<Rightarrow>
   fault + (bool \<times> regs \<times> machine)" where
  "dabort_read e regs insn pte ipa paddr target elr s =
     bind_res (emulate_load regs insn None) (\<lambda>(ok, regs1, width).
       if \<not> ok then Inr (False, regs1, s)
       else
         bind_res (dabort_load e regs1 pte ipa paddr target width s)
           (\<lambda>(ok1, regs2, val, s1).
              if \<not> ok1 then Inr (False, regs2, s1)
              else
                let s2 = (if pte AND SPTE_TRACE_READ \<noteq> 0
                          then send_mmiotrace pte (FIELD_PREP MMIO_EVT_WIDTH width)
                                 elr ipa val s1
                          else s1)
                in bind_res (emulate_load regs2 insn (Some val)) (\<lambda>(ok2, regs3, width2).
                     if \<not> ok2 then Inr (False, regs3, s2)
                     else Inr (True, regs3, advance_elr elr s2))))"

text \<open>
  \<open>hv_handle_dabort(regs)\<close>, over the page table \<open>pt\<close>: the returned flag, the register
  frame and the machine state.
\<close>

definition dabort_is_write :: "machine \<Rightarrow> bool" where
  "dabort_is_write s \<longleftrightarrow> ESR_EL2 s AND ESR_ISS_DABORT_WnR \<noteq> 0"

definition dabort_ipa :: "env \<Rightarrow> machine \<Rightarrow> u64" where
  "dabort_ipa e s = hv_translate e (FAR_EL2 s) True (dabort_is_write s) s"

definition dabort_elr_pa :: "env \<Rightarrow> machine \<Rightarrow> u64" where
  "dabort_elr_pa e s = hv_translate e (ELR_EL2 s) False False s"

definition hv_handle_dabort ::
  "env \<Rightarrow> pt_state \<Rightarrow> regs \<Rightarrow> machine \<Rightarrow> fault + (bool \<times> regs \<times> machine)" where
  "hv_handle_dabort e pt regs s =
     (let far = FAR_EL2 s;
          ipa = dabort_ipa e s
      in
      if ipa = 0 then Inr (False, regs, s)
      else if ipa \<ge> BIT VADDR_BITS then Inr (False, regs, s)
      else
        bind_res (hv_pt_walk ipa pt) (\<lambda>pte.
          if pte = 0 then Inr (False, regs, s)
          else if IS_HW pte then Inr (False, regs, s)
          else if \<not> IS_SW pte then Inl Assert_failed
          else
            let target = pte AND PTE_TARGET_MASK_L4;
                paddr = target OR (far AND MASK VADDR_L4_OFFSET_BITS);
                elr = ELR_EL2 s;
                elr_pa = dabort_elr_pa e s
            in
            if elr_pa = 0 then Inr (False, regs, s)
            else
              bind_res (read_mem 2 elr_pa s) (\<lambda>word.
                let insn = ucast word :: u32 in
                if dabort_is_write s
                then dabort_write e regs insn pte ipa paddr target elr s
                else dabort_read e regs insn pte ipa paddr target elr s)))"

section \<open>Data-abort handler: properties\<close>

text \<open>
  The three trace entries of one event on device \<open>d\<close>: the queued header, the queued
  payload, and the written checksum over both.
\<close>

definition event_frame :: "nat \<Rightarrow> u16 \<Rightarrow> u8 list \<Rightarrow> action list" where
  "event_frame d event_type data =
     (let hdr = to_le 4 REQ_EVENT @ to_le 2 (of_nat (length data) :: u16) @ to_le 2 event_type
      in [Iodev_queue d hdr, Iodev_queue d data,
          Iodev_write d (to_le 4 (checksum_finish (checksum_add data (checksum_start hdr))))])"

lemma send_event_frame:
  "uartproxy_send_event t data s =
     s\<lparr>trace := trace s @ event_frame (uartproxy_iodev s) t data\<rparr>"
  by (simp add: uartproxy_send_event_def event_frame_def Let_def iodev_write_def iodev_queue_def)


text \<open>The trace entries that stand for the emulated access itself.\<close>

definition is_access :: "action \<Rightarrow> bool" where
  "is_access a = (case a of Mem_write _ _ _ \<Rightarrow> True | Hook_call _ _ _ _ _ \<Rightarrow> True
                   | Exc_proxy _ _ _ _ \<Rightarrow> True | _ \<Rightarrow> False)"

lemma send_mmiotrace_eq:
  "send_mmiotrace pte flags pc addr data s =
     s\<lparr>trace := trace s @ event_frame (uartproxy_iodev s) EVT_MMIOTRACE
                            (mmiotrace_bytes flags pc addr data)
                        @ (if pte AND SPTE_SYNC_TRACE \<noteq> 0
                           then [Iodev_flush (uartproxy_iodev s)] else [])\<rparr>"
  by (simp add: send_mmiotrace_def Let_def send_event_frame iodev_flush_def)

lemma write_mem_trace:
  "write_mem width paddr val s = Inr s1 \<Longrightarrow>
   trace s1 = trace s @ [Mem_write paddr width (take_bit (8 * 2 ^ unat width) val)]
   \<and> ELR_EL2 s1 = ELR_EL2 s
   \<and> store_bytes paddr (to_le (2 ^ unat width) val) (mem s) = Inr (mem s1)"
  by (auto simp: write_mem_def Let_def bind_res_def to_le_take_bit split: sum.splits)

lemma dabort_store_trace:
  assumes "dabort_store e regs pte ipa paddr target val width s = Inr (ok, regs2, s2)"
  shows "ELR_EL2 s2 = ELR_EL2 s \<and>
         (\<exists>rest. trace s2 = trace s @ rest \<and> (\<forall>a\<in>set rest. is_access a)
                 \<and> (ok \<longrightarrow> rest \<noteq> [])
                 \<and> (ok \<and> FIELD_GET SPTE_TYPE pte = SPTE_MAP \<longrightarrow>
                      rest = [Mem_write paddr width (take_bit (8 * 2 ^ unat width) val)]
                    \<and> store_bytes paddr (to_le (2 ^ unat width) val) (mem s) = Inr (mem s2)))"
  using assms
  by (auto simp: dabort_store_def Let_def bind_res_def is_access_def
      SPTE_MAP_def SPTE_HOOK_def SPTE_PROXY_HOOK_R_def SPTE_PROXY_HOOK_W_def SPTE_PROXY_HOOK_RW_def
      dest!: write_mem_trace split: if_splits sum.splits prod.splits)

lemma hv_handle_dabort_write_reduce:
  assumes run: "hv_handle_dabort e pt regs s = Inr (ok, regs', s')"
      and wr: "dabort_is_write s"
      and walk: "hv_pt_walk (dabort_ipa e s) pt = Inr pte"
      and tr: "pte AND SPTE_TRACE_WRITE \<noteq> 0"
      and fetch: "read_mem 2 (dabort_elr_pa e s) s = Inr word"
      and ok: "ok"
  shows "dabort_write e regs (ucast word) pte (dabort_ipa e s)
           ((pte AND PTE_TARGET_MASK_L4) OR (FAR_EL2 s AND MASK VADDR_L4_OFFSET_BITS))
           (pte AND PTE_TARGET_MASK_L4) (ELR_EL2 s) s = Inr (ok, regs', s')"
  using run ok unfolding hv_handle_dabort_def Let_def
  by (simp add: walk fetch wr split: if_splits)

lemma send_mmiotrace_ELR [simp]:
  "ELR_EL2 (send_mmiotrace pte flags pc addr data s) = ELR_EL2 s"
  by (simp add: send_mmiotrace_eq)







text \<open>
  A guest running with the MMU off that executes \<open>STRH W1, [X2]\<close> at \<open>0x1000\<close> with
  \<open>X1 = 0x1234\<close> and \<open>X2 = 0x102\<close>, over a page table whose first 32 MiB are a software
  MAP block to \<open>0x2000000\<close> with \<open>TRACE_WRITE\<close> set.
\<close>

definition example_hv_pt :: pt_state where
  "example_hv_pt = example_pt\<lparr>hv_L2 := (\<lambda>_. 0)(0 := 0x4000000002000000)\<rparr>"

definition example_hv_regs :: regs where
  "example_hv_regs = (\<lambda>_. 0)(1 := 0x1234, 2 := 0x102)"

definition example_hv_machine :: machine where
  "example_hv_machine =
     \<lparr>rx = (\<lambda>_. []), trace = [],
      mem = (\<lambda>a. if a = 0x1000 then Some 0x41 else if a = 0x1001 then Some 0x00
                 else if a = 0x1002 then Some 0x00 else if a = 0x1003 then Some 0x79
                 else if 0x2000100 \<le> a \<and> a < 0x2000108 then Some 0 else None),
      iodev_proxy_buffer = (\<lambda>_. 0), uartproxy_iodev = 0, exc_count = 0,
      exc_guard = GUARD_OFF, guard_ret = 0,
      ESR_EL2 = 0x40, FAR_EL2 = 0x102, ELR_EL2 = 0x1000,
      SCTLR_EL12 = 0, SPSR_EL2 = 0, PAR_EL1 = 0\<rparr>"


lemma send_mmiotrace_mem [simp]:
  "mem (send_mmiotrace pte flags pc addr data s) = mem s"
  by (simp add: send_mmiotrace_eq)

text \<open>
  C6, as the code has it. When a write abort on a software entry with \<open>TRACE_WRITE\<close> set
  is handled, what the handler adds to the trace is, in this order: the MMIOTRACE event on
  the bound device (flags = width and write bit, pc = \<open>ELR\<close>, addr = the IPA, data = the
  value \<open>val\<close> that \<open>emulate_store\<close> yields), the flush of that device if \<open>SYNC_TRACE\<close> is
  set, the emulated access, and last the write of \<open>ELR + 4\<close> to \<open>ELR_EL2\<close>. The event's
  data is the whole 64-bit source register \<open>Rt\<close> as \<open>emulate_store\<close> reads it, after the
  base-register writeback of a pre/post-index form (0 for the zero register), with the
  width taken from the instruction; for a MAP entry the access is the store of the low
  \<open>8 * 2 ^ width\<close> bits of that value to the backing address, so the data of the event and
  the value stored agree in those bits only.
\<close>

theorem trace_before_write:
  assumes run: "hv_handle_dabort e pt regs s = Inr (True, regs', s')"
      and wr: "dabort_is_write s"
      and walk: "hv_pt_walk (dabort_ipa e s) pt = Inr pte"
      and tr: "pte AND SPTE_TRACE_WRITE \<noteq> 0"
      and fetch: "read_mem 2 (dabort_elr_pa e s) s = Inr word"
      and st: "emulate_store regs (ucast word) 0 = (ok, regs1, val, width)"
  shows "\<exists>rest.
           trace s' = trace s
             @ event_frame (uartproxy_iodev s) EVT_MMIOTRACE
                 (mmiotrace_bytes (FIELD_PREP MMIO_EVT_WIDTH width OR MMIO_EVT_WRITE)
                    (ELR_EL2 s) (dabort_ipa e s) val)
             @ (if pte AND SPTE_SYNC_TRACE \<noteq> 0 then [Iodev_flush (uartproxy_iodev s)] else [])
             @ rest @ [Msr_ELR (ELR_EL2 s + 4)]
         \<and> rest \<noteq> [] \<and> (\<forall>a\<in>set rest. is_access a)
         \<and> (FIELD_GET SPTE_TYPE pte = SPTE_MAP \<longrightarrow>
              rest = [Mem_write ((pte AND PTE_TARGET_MASK_L4) OR
                                 (FAR_EL2 s AND MASK VADDR_L4_OFFSET_BITS)) width
                        (take_bit (8 * 2 ^ unat width) val)]
            \<and> store_bytes ((pte AND PTE_TARGET_MASK_L4) OR
                            (FAR_EL2 s AND MASK VADDR_L4_OFFSET_BITS))
                 (to_le (2 ^ unat width) val) (mem s) = Inr (mem s'))
         \<and> ELR_EL2 s' = ELR_EL2 s + 4
         \<and> val = (if insn_Rt (ucast word) = 31 then 0 else regs1 (insn_Rt (ucast word)))
         \<and> width = insn_width (ucast word)"
proof -
  define paddr where "paddr = (pte AND PTE_TARGET_MASK_L4) OR (FAR_EL2 s AND MASK VADDR_L4_OFFSET_BITS)"
  define s1 where "s1 = send_mmiotrace pte (FIELD_PREP MMIO_EVT_WIDTH width OR MMIO_EVT_WRITE)
                         (ELR_EL2 s) (dabort_ipa e s) val s"
  from hv_handle_dabort_write_reduce [OF run wr walk tr fetch]
  have w: "dabort_write e regs (ucast word) pte (dabort_ipa e s) paddr
             (pte AND PTE_TARGET_MASK_L4) (ELR_EL2 s) s = Inr (True, regs', s')"
    by (simp add: paddr_def)
  have ok: "ok"
  proof (rule ccontr)
    assume "\<not> ok"
    with w st show False by (simp add: dabort_write_def)
  qed
  from st ok have v: "val = (if insn_Rt (ucast word) = 31 then 0 else regs1 (insn_Rt (ucast word)))"
    and wd: "width = insn_width (ucast word)"
    by (auto simp: emulate_store_def Let_def split: if_splits)
  from w st tr obtain s2 where
    store: "dabort_store e regs1 pte (dabort_ipa e s) paddr (pte AND PTE_TARGET_MASK_L4)
              val width s1 = Inr (True, regs', s2)"
    and s': "s' = advance_elr (ELR_EL2 s) s2"
    unfolding dabort_write_def Let_def
    by (auto simp: s1_def bind_res_def split: if_splits sum.splits prod.splits)
  have m1: "mem s1 = mem s" by (simp add: s1_def)
  from dabort_store_trace [OF store] obtain rest where
    rest: "trace s2 = trace s1 @ rest" "\<forall>a\<in>set rest. is_access a" "rest \<noteq> []"
      "FIELD_GET SPTE_TYPE pte = SPTE_MAP \<longrightarrow>
         rest = [Mem_write paddr width (take_bit (8 * 2 ^ unat width) val)]
       \<and> store_bytes paddr (to_le (2 ^ unat width) val) (mem s) = Inr (mem s2)"
    unfolding m1 by auto
  have t1: "trace s1 = trace s
             @ event_frame (uartproxy_iodev s) EVT_MMIOTRACE
                 (mmiotrace_bytes (FIELD_PREP MMIO_EVT_WIDTH width OR MMIO_EVT_WRITE)
                    (ELR_EL2 s) (dabort_ipa e s) val)
             @ (if pte AND SPTE_SYNC_TRACE \<noteq> 0 then [Iodev_flush (uartproxy_iodev s)] else [])"
    by (simp add: s1_def send_mmiotrace_eq)
  have "trace s' = trace s2 @ [Msr_ELR (ELR_EL2 s + 4)]" "ELR_EL2 s' = ELR_EL2 s + 4"
    "mem s' = mem s2"
    by (simp_all add: s' advance_elr_def)
  with rest t1 v wd show ?thesis
    unfolding paddr_def by (intro exI [of _ rest]) simp
qed

theorem trace_before_write_witness:
  "\<exists>regs' s'. hv_handle_dabort example_env example_hv_pt example_hv_regs example_hv_machine
       = Inr (True, regs', s')
     \<and> trace s' = event_frame 0 EVT_MMIOTRACE (mmiotrace_bytes 5 0x1000 0x102 0x1234)
                   @ [Mem_write 0x2000102 1 0x1234, Msr_ELR 0x1004]
     \<and> store_bytes 0x2000102 [0x34, 0x12] (mem example_hv_machine) = Inr (mem s')"
proof -
  have "case hv_handle_dabort example_env example_hv_pt example_hv_regs example_hv_machine of
          Inl f \<Rightarrow> False | Inr (ok, r, s') \<Rightarrow> ok"
    by code_simp
  then obtain regs' s' where
    run: "hv_handle_dabort example_env example_hv_pt example_hv_regs example_hv_machine
          = Inr (True, regs', s')"
    by (auto split: sum.splits)
  have wr: "dabort_is_write example_hv_machine" by code_simp
  have walk: "hv_pt_walk (dabort_ipa example_env example_hv_machine) example_hv_pt
              = Inr 0x4000000002000100"
    by code_simp
  have tr: "(0x4000000002000100 :: u64) AND SPTE_TRACE_WRITE \<noteq> 0" by code_simp
  have fetch: "read_mem 2 (dabort_elr_pa example_env example_hv_machine) example_hv_machine
               = Inr 0x79000041"
    by code_simp
  have st: "emulate_store example_hv_regs (ucast (0x79000041 :: u64)) 0
            = (True, example_hv_regs, 0x1234, 1)"
    by (simp add: emulate_store_def Let_def insn_Rt_def insn_Rn_def insn_width_def
        example_hv_regs_def)
  have c: "FIELD_PREP MMIO_EVT_WIDTH 1 OR MMIO_EVT_WRITE = 5"
    "FIELD_GET SPTE_TYPE 0x4000000002000100 = SPTE_MAP"
    "(0x4000000002000100 AND PTE_TARGET_MASK_L4) OR
       (FAR_EL2 example_hv_machine AND MASK VADDR_L4_OFFSET_BITS) = 0x2000102"
    "(0x4000000002000100 :: u64) AND SPTE_SYNC_TRACE = 0"
    "ELR_EL2 example_hv_machine = 0x1000"
    "dabort_ipa example_env example_hv_machine = 0x102"
    "uartproxy_iodev example_hv_machine = 0"
    "trace example_hv_machine = []"
    "take_bit (8 * 2 ^ unat (1 :: u64)) (0x1234 :: u64) = 0x1234"
    "to_le 2 (0x1234 :: u64) = [0x34, 0x12]"
    by code_simp+
  from trace_before_write [OF run wr walk tr fetch st] run
  show ?thesis by (auto simp: c)
qed

text \<open>
  The claim's \<open>data = stored value\<close> fails when the source register holds more than the
  access width: \<open>STRH W1, [X2]\<close> with \<open>X1 = 0xABCD1234\<close> sends an event whose data is
  \<open>0xABCD1234\<close>, while the 16-bit store writes \<open>0x1234\<close>, the bytes \<open>34 12\<close>.
\<close>

definition example_hv_regs_wide :: regs where
  "example_hv_regs_wide = (\<lambda>_. 0)(1 := 0xABCD1234, 2 := 0x102)"

theorem trace_data_counterexample:
  "(case hv_handle_dabort example_env example_hv_pt example_hv_regs_wide example_hv_machine of
      Inl f \<Rightarrow> False
    | Inr (ok, r, s') \<Rightarrow>
        ok \<and> trace s' = event_frame 0 EVT_MMIOTRACE (mmiotrace_bytes 5 0x1000 0x102 0xABCD1234)
                          @ [Mem_write 0x2000102 1 0x1234, Msr_ELR 0x1004]
           \<and> map (mem s') [0x2000102, 0x2000103] = [Some 0x34, Some 0x12])
   \<and> (0xABCD1234 :: u64) \<noteq> 0x1234"
  by code_simp











end
